theory Spec2Isabelle
  imports Main "HOL-Library.Multiset" "HOL-Library.AList"
begin

section \<open>Time values\<close>

text \<open>
  The Go type \<^verbatim>\<open>time.Time\<close> belongs to the standard library. A value is modelled by the
  instant it denotes, as a number of nanoseconds relative to the Unix epoch. Only the
  operations used by \<^verbatim>\<open>tally.go\<close> are modelled: the zero value, \<^verbatim>\<open>Unix()\<close> and
  \<^verbatim>\<open>Compare\<close>.
\<close>

type_synonym Time = int

text \<open>The zero \<^verbatim>\<open>time.Time\<close> is January 1, year 1, 00:00:00 UTC.\<close>

definition zeroTime :: Time where
  "zeroTime = - 62135596800 * 1000000000"

text \<open>\<^verbatim>\<open>t.Unix()\<close>: whole seconds since the epoch.\<close>

definition Unix :: "Time \<Rightarrow> int" where
  "Unix t = t div 1000000000"

text \<open>\<^verbatim>\<open>t.Compare(u)\<close>: -1 when \<open>t\<close> is before \<open>u\<close>, +1 when it is after, 0 when equal.\<close>

definition time_Compare :: "Time \<Rightarrow> Time \<Rightarrow> int" where
  "time_Compare t u = (if t < u then - 1 else if u < t then 1 else 0)"

text \<open>
  Modelled from the spec: \<^verbatim>\<open>timeutils.Max\<close> lives in the package
  \<^verbatim>\<open>internal/timeutils\<close>, which is not among the source files. The spec describes
  the timestamp of a combination as "the maximum", so the helper returns the later of
  its two arguments.
\<close>

definition timeutils_Max :: "Time \<Rightarrow> Time \<Rightarrow> Time" where
  "timeutils_Max a b = (if b < a then a else b)"

section \<open>Ranking modes and the Tally record\<close>

text \<open>
  \<^verbatim>\<open>type TallyMode int\<close> with four constants declared by \<^verbatim>\<open>iota\<close>. The type is an
  integer type, so values outside the four constants exist; they are kept in the model.
  Go's \<^verbatim>\<open>int\<close> counters are modelled as unbounded integers: they count commits, lines
  and paths of the input, and no claim depends on 64-bit wrap-around.
\<close>

type_synonym TallyMode = int

definition CommitMode :: TallyMode where "CommitMode = 0"
definition LinesMode :: TallyMode where "LinesMode = 1"
definition FilesMode :: TallyMode where "FilesMode = 2"
definition LastModifiedMode :: TallyMode where "LastModifiedMode = 3"

record Tally =
  AuthorName :: string
  AuthorEmail :: string
  Commits :: int
  LinesAdded :: int
  LinesRemoved :: int
  FileCount :: int
  LastCommitTime :: Time

text \<open>The zero value of the struct, which a Go map lookup returns for a missing key.\<close>

definition zeroTally :: Tally where
  "zeroTally = \<lparr>AuthorName = [], AuthorEmail = [], Commits = 0, LinesAdded = 0,
     LinesRemoved = 0, FileCount = 0, LastCommitTime = zeroTime\<rparr>"

text \<open>\<^verbatim>\<open>Tally.SortKey\<close>; \<open>None\<close> is the panic of the default branch.\<close>

definition SortKey :: "Tally \<Rightarrow> TallyMode \<Rightarrow> int option" where
  "SortKey t mode =
     (if mode = CommitMode then Some (Commits t)
      else if mode = FilesMode then Some (FileCount t)
      else if mode = LinesMode then Some (LinesAdded t + LinesRemoved t)
      else if mode = LastModifiedMode then Some (Unix (LastCommitTime t))
      else None)"

text \<open>\<^verbatim>\<open>Tally.Compare\<close>; it panics when \<^verbatim>\<open>SortKey\<close> does.\<close>

definition Compare :: "Tally \<Rightarrow> Tally \<Rightarrow> TallyMode \<Rightarrow> int option" where
  "Compare a b mode =
     (case SortKey a mode of
        None \<Rightarrow> None
      | Some aRank \<Rightarrow>
          (case SortKey b mode of
             None \<Rightarrow> None
           | Some bRank \<Rightarrow>
               if aRank < bRank then Some (- 1)
               else if bRank < aRank then Some 1
               else Some (time_Compare (LastCommitTime a) (LastCommitTime b))))"

section \<open>The combinable partial tally\<close>

text \<open>
  \<^verbatim>\<open>intermediateTally\<close>. Its field \<^verbatim>\<open>commitset\<close> is a \<^verbatim>\<open>map[string]bool\<close> used as
  a set: the code only ever stores \<^verbatim>\<open>true\<close> and only reads the number of keys. A Go
  map is a reference to a mutable table, so the record is parameterised by how the field
  is represented: by its contents (a \<^typ>\<open>string set\<close>) where values are compared, or
  by the address of the table in a store where sharing matters.
\<close>

record 'm intermediateTally =
  commitset :: 'm
  added :: int
  removed :: int
  lastCommitTime :: Time
  numTallied :: int

type_synonym partial = "string set intermediateTally"

definition newTally :: "int \<Rightarrow> partial" where
  "newTally n = \<lparr>commitset = {}, added = 0, removed = 0, lastCommitTime = zeroTime,
     numTallied = n\<rparr>"

text \<open>The method \<^verbatim>\<open>intermediateTally.Commits\<close>: the number of keys of the commit set.\<close>

definition intermediateTally_Commits :: "partial \<Rightarrow> int" where
  "intermediateTally_Commits t = int (card (commitset t))"

text \<open>
  \<^verbatim>\<open>intermediateTally.Add\<close>, by the contents of the maps: the value that the call
  returns, given the contents of the operands' commit sets before the call.
\<close>

definition Add :: "partial \<Rightarrow> partial \<Rightarrow> partial" where
  "Add a b = \<lparr>commitset = commitset a \<union> commitset b,
     added = added a + added b,
     removed = removed a + removed b,
     lastCommitTime = timeutils_Max (lastCommitTime a) (lastCommitTime b),
     numTallied = numTallied a + numTallied b\<rparr>"

subsection \<open>The same method over a store of map tables\<close>

text \<open>
  The store maps the address of every map table to its contents. \<^verbatim>\<open>union := a.commitset\<close>
  copies the reference, so the loop \<^verbatim>\<open>union[commit] = true\<close> writes every key of
  \<^verbatim>\<open>b.commitset\<close> into the table of \<^verbatim>\<open>a\<close>, and the returned struct holds that same
  reference.
\<close>

type_synonym mapref = nat
type_synonym store = "mapref \<Rightarrow> string set"

definition Add_store ::
  "store \<Rightarrow> mapref intermediateTally \<Rightarrow> mapref intermediateTally
     \<Rightarrow> mapref intermediateTally \<times> store" where
  "Add_store h a b =
     (let union = commitset a;
          h' = h(union := h union \<union> h (commitset b))
      in (\<lparr>commitset = union,
           added = added a + added b,
           removed = removed a + removed b,
           lastCommitTime = timeutils_Max (lastCommitTime a) (lastCommitTime b),
           numTallied = numTallied a + numTallied b\<rparr>, h'))"

text \<open>Reading a struct through the store gives its value.\<close>

definition deref :: "store \<Rightarrow> mapref intermediateTally \<Rightarrow> partial" where
  "deref h t = \<lparr>commitset = h (commitset t), added = added t, removed = removed t,
     lastCommitTime = lastCommitTime t, numTallied = numTallied t\<rparr>"

section \<open>Commits, options and errors\<close>

text \<open>
  Modelled from the spec: \<^verbatim>\<open>git.Commit\<close> is declared in the package
  \<^verbatim>\<open>internal/git\<close>, which is not among the source files. The spec (section 6) lists what
  a commit record exposes: a stable unique identifier, the author's display name and
  email, a timestamp, and a per-path added/removed line delta for every file the commit
  touched. \<^verbatim>\<open>tally.go\<close> itself reads \<^verbatim>\<open>AuthorName\<close>, \<^verbatim>\<open>AuthorEmail\<close> and \<^verbatim>\<open>Date\<close>.
\<close>

record FileDiff =
  Path :: string
  DiffLinesAdded :: int
  DiffLinesRemoved :: int

record Commit =
  Hash :: string
  Commit_AuthorName :: string
  Commit_AuthorEmail :: string
  Date :: Time
  FileDiffs :: "FileDiff list"

record TallyOpts =
  Mode :: TallyMode
  Key :: "Commit \<Rightarrow> string"

definition IsDiffMode :: "TallyOpts \<Rightarrow> bool" where
  "IsDiffMode opts = (Mode opts = FilesMode \<or> Mode opts = LinesMode)"

text \<open>
  Go errors: \<^verbatim>\<open>errors.New(msg)\<close> and \<^verbatim>\<open>fmt.Errorf(msg + "%w", err)\<close>, which wraps
  \<^verbatim>\<open>err\<close>. The errors of the commit source are values of the same type.
\<close>

datatype error = errors_New string | fmt_Errorf string error

text \<open>
  \<^verbatim>\<open>iter.Seq2[git.Commit, error]\<close>: a finite sequence whose elements are either a commit
  (\<open>Inr\<close>) or an error (\<open>Inl\<close>). A function returning \<^verbatim>\<open>(x, nil)\<close> returns \<open>Inr x\<close>;
  one returning \<^verbatim>\<open>(nil, err)\<close> returns \<open>Inl err\<close>.
\<close>

type_synonym commits = "(error + Commit) list"

section \<open>Go maps\<close>

text \<open>
  A Go map is modelled as an association list with one entry per key; the order of the
  list stands for the (unspecified) order in which \<^verbatim>\<open>range\<close> visits the entries.
  Two maps are the same map when \<^const>\<open>map_of\<close> agrees on them. A \<^verbatim>\<open>map[string]bool\<close> that
  is used as a set (the commit sets, the working-tree files) is modelled as a
  \<^typ>\<open>string set\<close>.
\<close>

type_synonym tallies = "(string \<times> Tally) list"

text \<open>\<^verbatim>\<open>m[k]\<close> on a \<^verbatim>\<open>map[string]Tally\<close>: the zero value when the key is missing.\<close>

definition lookupTally :: "tallies \<Rightarrow> string \<Rightarrow> Tally" where
  "lookupTally m k = (case map_of m k of None \<Rightarrow> zeroTally | Some t \<Rightarrow> t)"

section \<open>Author-paths tables\<close>

text \<open>
  Modelled from the spec: the type \<^verbatim>\<open>AuthorPaths\<close>, its method \<^verbatim>\<open>Union\<close> and the
  function \<^verbatim>\<open>tallyByPaths\<close> are defined in a file of the package that is not among the
  source files. \<^verbatim>\<open>sumOverPaths\<close> reads the fields \<^verbatim>\<open>name\<close>, \<^verbatim>\<open>email\<close> and
  \<^verbatim>\<open>paths\<close>; the spec (section 3): "keyed by author identity, value holds the author's
  display name/email plus a mapping from file path to that path's combinable partial
  tally".
\<close>

record AuthorPaths =
  name :: string
  email :: string
  paths :: "(string \<times> partial) list"

type_synonym authors = "(string \<times> AuthorPaths) list"

text \<open>
  Modelled from the spec (section 4.3): for each commit and each file path its diff
  touches, "look up or create that author's per-path partial for the touched path;
  combine into it a partial tally representing exactly this commit: its identifier, its
  added/removed line delta for that path, its timestamp, and a tallied-count of 1", and
  "record/refresh the author's display name and email". Partials are created empty.
\<close>

definition commitPartial :: "Commit \<Rightarrow> FileDiff \<Rightarrow> partial" where
  "commitPartial commit diff = \<lparr>commitset = {Hash commit}, added = DiffLinesAdded diff,
     removed = DiffLinesRemoved diff, lastCommitTime = Date commit, numTallied = 1\<rparr>"

definition tallyByPaths_diff :: "TallyOpts \<Rightarrow> Commit \<Rightarrow> FileDiff \<Rightarrow> authors \<Rightarrow> authors" where
  "tallyByPaths_diff opts commit diff authors =
     (let key = Key opts commit;
          author = (case map_of authors key of
                      None \<Rightarrow> \<lparr>name = [], email = [], paths = []\<rparr>
                    | Some a \<Rightarrow> a);
          pathTally = (case map_of (paths author) (Path diff) of
                         None \<Rightarrow> newTally 0
                       | Some t \<Rightarrow> t);
          author' = \<lparr>name = Commit_AuthorName commit, email = Commit_AuthorEmail commit,
                     paths = AList.update (Path diff) (Add pathTally (commitPartial commit diff))
                               (paths author)\<rparr>
      in AList.update key author' authors)"

text \<open>
  Modelled from the spec (section 4.3): "if the input commit sequence reports an error
  for an element, abort immediately and propagate a wrapped error; no partial result is
  returned". The context of the wrapping is taken to be that of the sibling loop in
  \<^verbatim>\<open>tallyCommits\<close>.
\<close>

fun tallyByPaths_loop :: "TallyOpts \<Rightarrow> commits \<Rightarrow> authors \<Rightarrow> error + authors" where
  "tallyByPaths_loop opts [] authors = Inr authors"
| "tallyByPaths_loop opts (Inl err # rest) authors =
     Inl (fmt_Errorf ''error iterating commits: '' err)"
| "tallyByPaths_loop opts (Inr commit # rest) authors =
     tallyByPaths_loop opts rest (fold (tallyByPaths_diff opts commit) (FileDiffs commit) authors)"

definition tallyByPaths :: "commits \<Rightarrow> string set \<Rightarrow> TallyOpts \<Rightarrow> error + authors" where
  "tallyByPaths commits wtreefiles opts = tallyByPaths_loop opts commits []"

text \<open>
  Modelled from the spec (section 3): two tables union so that "keys present in both
  combine their per-path maps entrywise via combinable-partial combination"; paths
  present in one operand only are copied. The spec leaves the precedence between name and
  email spellings open; the receiver's are kept.
\<close>

definition Union_paths ::
  "(string \<times> partial) list \<Rightarrow> (string \<times> partial) list \<Rightarrow> (string \<times> partial) list" where
  "Union_paths l r =
     fold (\<lambda>(path, rightTally) union.
             AList.update path
               (case map_of union path of
                  None \<Rightarrow> rightTally
                | Some leftTally \<Rightarrow> Add leftTally rightTally) union) r l"

definition AuthorPaths_Union :: "AuthorPaths \<Rightarrow> AuthorPaths \<Rightarrow> AuthorPaths" where
  "AuthorPaths_Union left right =
     \<lparr>name = name left, email = email left, paths = Union_paths (paths left) (paths right)\<rparr>"

section \<open>Reduction over paths\<close>

text \<open>
  \<^verbatim>\<open>sumOverPaths\<close>. The inner loop starts from \<^verbatim>\<open>newTally(0)\<close>, whose commit set is a
  fresh table that only \<^verbatim>\<open>runningTally\<close> refers to, so the in-place update made by
  \<^verbatim>\<open>Add\<close> touches no other partial and the loop is given by the values.
\<close>

definition sumPaths :: "(string \<times> partial) list \<Rightarrow> string set \<Rightarrow> bool \<Rightarrow> partial" where
  "sumPaths ps wtreefiles allowOutsideWorktree =
     fold (\<lambda>(path, pathTally) runningTally.
             if path \<in> wtreefiles \<or> allowOutsideWorktree
             then Add runningTally pathTally
             else runningTally) ps (newTally 0)"

definition sumOverPaths :: "authors \<Rightarrow> string set \<Rightarrow> bool \<Rightarrow> tallies" where
  "sumOverPaths authors wtreefiles allowOutsideWorktree =
     fold (\<lambda>(key, author) authorTallies.
             let authorTally = lookupTally authorTallies key;
                 authorTally1 = authorTally\<lparr>AuthorName := name author,
                                  AuthorEmail := email author\<rparr>;
                 runningTally = sumPaths (paths author) wtreefiles allowOutsideWorktree;
                 authorTally2 = authorTally1\<lparr>
                    Commits := intermediateTally_Commits runningTally,
                    LinesAdded := added runningTally,
                    LinesRemoved := removed runningTally,
                    FileCount := numTallied runningTally,
                    LastCommitTime := lastCommitTime runningTally\<rparr>
             in AList.update key authorTally2 authorTallies) authors []"

section \<open>The sequential engine\<close>

text \<open>The loop of the simple strategy, with the map \<^verbatim>\<open>authorTallies\<close> as accumulator.\<close>

fun tallyCommits_simple :: "TallyOpts \<Rightarrow> commits \<Rightarrow> tallies \<Rightarrow> error + tallies" where
  "tallyCommits_simple opts [] authorTallies = Inr authorTallies"
| "tallyCommits_simple opts (Inl err # rest) authorTallies =
     Inl (fmt_Errorf ''error iterating commits: '' err)"
| "tallyCommits_simple opts (Inr commit # rest) authorTallies =
     (let key = Key opts commit;
          authorTally = lookupTally authorTallies key;
          authorTally' = authorTally\<lparr>
             AuthorName := Commit_AuthorName commit,
             AuthorEmail := Commit_AuthorEmail commit,
             Commits := Commits authorTally + 1,
             LastCommitTime := timeutils_Max (Date commit) (LastCommitTime authorTally)\<rparr>
      in tallyCommits_simple opts rest (AList.update key authorTally' authorTallies))"

text \<open>
  \<^verbatim>\<open>tallyCommits\<close>. The timing and the debug log line have no effect on the result and
  are left out.
\<close>

definition tallyCommits :: "commits \<Rightarrow> string set \<Rightarrow> bool \<Rightarrow> TallyOpts \<Rightarrow> error + tallies" where
  "tallyCommits commits wtreefiles allowOutsideWorktree opts =
     (if \<not> IsDiffMode opts \<and> allowOutsideWorktree
      then tallyCommits_simple opts commits []
      else (case tallyByPaths commits wtreefiles opts of
              Inl err \<Rightarrow> Inl err
            | Inr pathTallies \<Rightarrow>
                Inr (sumOverPaths pathTallies wtreefiles allowOutsideWorktree)))"

section \<open>Ranking\<close>

text \<open>
  \<^verbatim>\<open>slices.SortedFunc\<close> of the standard library collects the values and sorts them with
  the comparison function; the order of values that compare equal is unspecified. It is
  modelled by insertion sort over the values in iteration order. The comparison function
  may panic (\<open>None\<close>), and the sort then panics; no comparison is made on fewer than two
  values.
\<close>

fun insertFunc :: "('a \<Rightarrow> 'a \<Rightarrow> int option) \<Rightarrow> 'a \<Rightarrow> 'a list \<Rightarrow> 'a list option" where
  "insertFunc cmp x [] = Some [x]"
| "insertFunc cmp x (y # ys) =
     (case cmp x y of
        None \<Rightarrow> None
      | Some c \<Rightarrow>
          if c \<le> 0 then Some (x # y # ys)
          else map_option (Cons y) (insertFunc cmp x ys))"

fun SortedFunc :: "'a list \<Rightarrow> ('a \<Rightarrow> 'a \<Rightarrow> int option) \<Rightarrow> 'a list option" where
  "SortedFunc [] cmp = Some []"
| "SortedFunc (x # xs) cmp =
     (case SortedFunc xs cmp of
        None \<Rightarrow> None
      | Some ys \<Rightarrow> insertFunc cmp x ys)"

definition sortTallies :: "tallies \<Rightarrow> TallyMode \<Rightarrow> Tally list option" where
  "sortTallies ts mode =
     SortedFunc (map snd ts) (\<lambda>a b. map_option uminus (Compare a b mode))"

text \<open>\<^verbatim>\<open>TallyCommits\<close>; \<open>None\<close> is a panic, \<open>Some (Inl err)\<close> the return of \<^verbatim>\<open>(nil, err)\<close>.\<close>

definition TallyCommits ::
  "commits \<Rightarrow> string set \<Rightarrow> bool \<Rightarrow> TallyOpts \<Rightarrow> (error + Tally list) option" where
  "TallyCommits commits wtreefiles allowOutsideWorktree opts =
     (case tallyCommits commits wtreefiles allowOutsideWorktree opts of
        Inl err \<Rightarrow> Some (Inl err)
      | Inr authorTallies \<Rightarrow> map_option Inr (sortTallies authorTallies (Mode opts)))"

section \<open>The pipeline factories\<close>

text \<open>The three closures returned by \<^verbatim>\<open>TallyCommitsApplyMerge\<close>.\<close>

definition TallyCommitsApplyMerge_apply ::
  "string set \<Rightarrow> bool \<Rightarrow> TallyOpts \<Rightarrow> commits \<Rightarrow> error + tallies" where
  "TallyCommitsApplyMerge_apply wtreeset allowOutsideWorktree opts commits =
     (if IsDiffMode opts then Inl (errors_New ''unsupported tally mode'')
      else tallyCommits commits wtreeset allowOutsideWorktree opts)"

text \<open>
  \<^verbatim>\<open>union := b\<close> makes \<^verbatim>\<open>union\<close> the table of \<^verbatim>\<open>b\<close>, which the loop updates in place and
  which is returned; the function is given here by the value of the returned map.
\<close>

definition TallyCommitsApplyMerge_merge :: "tallies \<Rightarrow> tallies \<Rightarrow> tallies" where
  "TallyCommitsApplyMerge_merge a b =
     fold (\<lambda>(k, at) union.
             let bt = lookupTally union k;
                 at' = at\<lparr>Commits := Commits at + Commits bt,
                          LastCommitTime :=
                            timeutils_Max (LastCommitTime at) (LastCommitTime bt)\<rparr>
             in AList.update k at' union) a b"

definition TallyCommitsApplyMerge_finalize :: "TallyOpts \<Rightarrow> tallies \<Rightarrow> Tally list option" where
  "TallyCommitsApplyMerge_finalize opts ts = sortTallies ts (Mode opts)"

definition TallyCommitsApplyMerge ::
  "string set \<Rightarrow> bool \<Rightarrow> TallyOpts \<Rightarrow>
     (commits \<Rightarrow> error + tallies) \<times> (tallies \<Rightarrow> tallies \<Rightarrow> tallies)
       \<times> (tallies \<Rightarrow> Tally list option)" where
  "TallyCommitsApplyMerge wtreeset allowOutsideWorktree opts =
     (TallyCommitsApplyMerge_apply wtreeset allowOutsideWorktree opts,
      TallyCommitsApplyMerge_merge,
      TallyCommitsApplyMerge_finalize opts)"

text \<open>
  The three closures returned by \<^verbatim>\<open>TallyCommitsDiffApplyMerge\<close>. In \<^verbatim>\<open>merge\<close>,
  \<^verbatim>\<open>b\<close> and \<^verbatim>\<open>union\<close> are the same table, so \<^verbatim>\<open>b[key]\<close> reads the current \<^verbatim>\<open>union\<close>.
\<close>

definition TallyCommitsDiffApplyMerge_apply ::
  "string set \<Rightarrow> bool \<Rightarrow> TallyOpts \<Rightarrow> commits \<Rightarrow> error + authors" where
  "TallyCommitsDiffApplyMerge_apply wtreeset allowOutsideWorktree opts commits =
     tallyByPaths commits wtreeset opts"

definition TallyCommitsDiffApplyMerge_merge :: "authors \<Rightarrow> authors \<Rightarrow> authors" where
  "TallyCommitsDiffApplyMerge_merge a b =
     fold (\<lambda>(key, aAuthor) union.
             let aAuthor' = (case map_of union key of
                               Some bAuthor \<Rightarrow> AuthorPaths_Union aAuthor bAuthor
                             | None \<Rightarrow> aAuthor)
             in AList.update key aAuthor' union) a b"

definition TallyCommitsDiffApplyMerge_finalize ::
  "string set \<Rightarrow> bool \<Rightarrow> TallyOpts \<Rightarrow> authors \<Rightarrow> Tally list option" where
  "TallyCommitsDiffApplyMerge_finalize wtreeset allowOutsideWorktree opts authors =
     sortTallies (sumOverPaths authors wtreeset allowOutsideWorktree) (Mode opts)"

section \<open>Notions used to state the properties\<close>

text \<open>The enumerated set of ranking modes.\<close>

definition validMode :: "TallyMode \<Rightarrow> bool" where
  "validMode mode =
     (mode = CommitMode \<or> mode = LinesMode \<or> mode = FilesMode \<or> mode = LastModifiedMode)"

text \<open>
  \<open>a\<close> may stand before \<open>b\<close> in a ranking: its sort key is larger, or the keys are equal
  and its last commit is not earlier.
\<close>

definition ranksAbove :: "TallyMode \<Rightarrow> Tally \<Rightarrow> Tally \<Rightarrow> bool" where
  "ranksAbove mode a b =
     (\<exists>ka kb. SortKey a mode = Some ka \<and> SortKey b mode = Some kb \<and>
        (kb < ka \<or> (ka = kb \<and> LastCommitTime b \<le> LastCommitTime a)))"

text \<open>The body of the loop of the simple strategy, for one commit.\<close>

definition simpleStep :: "TallyOpts \<Rightarrow> Commit \<Rightarrow> tallies \<Rightarrow> tallies" where
  "simpleStep opts commit authorTallies =
     AList.update (Key opts commit)
       ((lookupTally authorTallies (Key opts commit))\<lparr>
           AuthorName := Commit_AuthorName commit,
           AuthorEmail := Commit_AuthorEmail commit,
           Commits := Commits (lookupTally authorTallies (Key opts commit)) + 1,
           LastCommitTime := timeutils_Max (Date commit)
              (LastCommitTime (lookupTally authorTallies (Key opts commit)))\<rparr>)
       authorTallies"

text \<open>The number of elements of a commit list whose author key is \<open>k\<close>.\<close>

definition commitCount :: "TallyOpts \<Rightarrow> string \<Rightarrow> Commit list \<Rightarrow> int" where
  "commitCount opts k cs = int (length (filter (\<lambda>c. Key opts c = k) cs))"

text \<open>The latest date among the commits of key \<open>k\<close>, and at least the zero time.\<close>

definition latest :: "TallyOpts \<Rightarrow> string \<Rightarrow> Commit list \<Rightarrow> Time" where
  "latest opts k cs = Max (insert zeroTime (Date ` {c \<in> set cs. Key opts c = k}))"

text \<open>The entries of a path map that pass the working-tree filter.\<close>

definition qualifying :: "string set \<Rightarrow> bool \<Rightarrow> (string \<times> partial) list \<Rightarrow> (string \<times> partial) list" where
  "qualifying wtreefiles allowOutsideWorktree ps =
     filter (\<lambda>(path, pathTally). path \<in> wtreefiles \<or> allowOutsideWorktree) ps"

text \<open>The commit set recorded for a path, empty when the path has no entry.\<close>

definition commitsetAt :: "AuthorPaths \<Rightarrow> string \<Rightarrow> string set" where
  "commitsetAt author p = (case map_of (paths author) p of None \<Rightarrow> {} | Some t \<Rightarrow> commitset t)"

text \<open>The tally that \<^verbatim>\<open>sumOverPaths\<close> builds for one entry of the table.\<close>

definition authorTallyOf :: "string set \<Rightarrow> bool \<Rightarrow> AuthorPaths \<Rightarrow> Tally" where
  "authorTallyOf wtreefiles allowOutsideWorktree author =
     \<lparr>AuthorName = name author, AuthorEmail = email author,
      Commits = intermediateTally_Commits (sumPaths (paths author) wtreefiles allowOutsideWorktree),
      LinesAdded = added (sumPaths (paths author) wtreefiles allowOutsideWorktree),
      LinesRemoved = removed (sumPaths (paths author) wtreefiles allowOutsideWorktree),
      FileCount = numTallied (sumPaths (paths author) wtreefiles allowOutsideWorktree),
      LastCommitTime = lastCommitTime (sumPaths (paths author) wtreefiles allowOutsideWorktree)\<rparr>"

text \<open>What \<^verbatim>\<open>merge\<close> stores for a key of \<^verbatim>\<open>a\<close>, given the entry of \<^verbatim>\<open>b\<close>.\<close>

definition mergeEntry :: "Tally \<Rightarrow> Tally \<Rightarrow> Tally" where
  "mergeEntry at bt = at\<lparr>Commits := Commits at + Commits bt,
     LastCommitTime := timeutils_Max (LastCommitTime at) (LastCommitTime bt)\<rparr>"

text \<open>No tally of the map has a last-commit time before the zero time.\<close>

definition notBeforeZero :: "tallies \<Rightarrow> bool" where
  "notBeforeZero m = (\<forall>(k, t) \<in> set m. zeroTime \<le> LastCommitTime t)"

text \<open>
  The reduction of shard partials is driven by a scheduler outside this package (spec,
  section 5). A reduction tree gives the shape of one such reduction: the leaves are the
  shards, in the order in which they sit in the tree, and every inner node is one call of
  \<^verbatim>\<open>merge\<close> on the results of its subtrees, each of which is used once.
\<close>

datatype 'a rtree = Leaf 'a | Node "'a rtree" "'a rtree"

fun leaves :: "'a rtree \<Rightarrow> 'a list" where
  "leaves (Leaf x) = [x]"
| "leaves (Node l r) = leaves l @ leaves r"

fun reduceTree ::
  "(commits \<Rightarrow> error + 'p) \<Rightarrow> ('p \<Rightarrow> 'p \<Rightarrow> 'p) \<Rightarrow> commits rtree \<Rightarrow> error + 'p" where
  "reduceTree apply merge (Leaf shard) = apply shard"
| "reduceTree apply merge (Node l r) =
     (case reduceTree apply merge l of
        Inl err \<Rightarrow> Inl err
      | Inr a \<Rightarrow>
          (case reduceTree apply merge r of
             Inl err \<Rightarrow> Inl err
           | Inr b \<Rightarrow> Inr (merge a b)))"

text \<open>
  A map of tallies summarises a commit list in the way of the simple strategy: one entry
  per author key, with the number of commits of the key, no lines and no files, the
  latest date, and the name and email of one of the commits of the key.
\<close>

definition summarises :: "TallyOpts \<Rightarrow> Commit list \<Rightarrow> tallies \<Rightarrow> bool" where
  "summarises opts cs m =
     (distinct (map fst m) \<and>
      (\<forall>k. (map_of m k \<noteq> None \<longleftrightarrow> k \<in> Key opts ` set cs)
         \<and> Commits (lookupTally m k) = commitCount opts k cs
         \<and> LinesAdded (lookupTally m k) = 0
         \<and> LinesRemoved (lookupTally m k) = 0
         \<and> FileCount (lookupTally m k) = 0
         \<and> LastCommitTime (lookupTally m k) = latest opts k cs
         \<and> (k \<in> Key opts ` set cs \<longrightarrow>
              (\<exists>c \<in> set cs. Key opts c = k
                 \<and> AuthorName (lookupTally m k) = Commit_AuthorName c
                 \<and> AuthorEmail (lookupTally m k) = Commit_AuthorEmail c))))"

text \<open>All commits with the same author key carry the same name and email.\<close>

definition keyConsistent :: "TallyOpts \<Rightarrow> Commit list \<Rightarrow> bool" where
  "keyConsistent opts cs =
     (\<forall>c \<in> set cs. \<forall>c' \<in> set cs. Key opts c = Key opts c' \<longrightarrow>
        Commit_AuthorName c = Commit_AuthorName c' \<and> Commit_AuthorEmail c = Commit_AuthorEmail c')"

text \<open>The fields of a tally other than name and email.\<close>

definition coreOf :: "Tally \<Rightarrow> int \<times> int \<times> int \<times> int \<times> Time" where
  "coreOf t = (Commits t, LinesAdded t, LinesRemoved t, FileCount t, LastCommitTime t)"

section \<open>Properties of the partial tally\<close>

lemmas mode_defs = CommitMode_def LinesMode_def FilesMode_def LastModifiedMode_def


lemma timeutils_Max_max: "timeutils_Max a b = max a b"
  by (simp add: timeutils_Max_def max_def)

lemma Add_commute: "Add x y = Add y x"
  by (simp add: Add_def timeutils_Max_max Un_commute max.commute)

lemma Add_assoc: "Add (Add x y) z = Add x (Add y z)"
  by (simp add: Add_def timeutils_Max_max Un_assoc max.assoc)

text \<open>
  Claim C2, as stated: \<^verbatim>\<open>a.Add(b)\<close> leaves both operands unchanged and its result
  does not share the commit set of \<^verbatim>\<open>a\<close>. This fails: with \<^verbatim>\<open>a\<close>'s set empty at
  address 0 and \<^verbatim>\<open>b\<close>'s set \<open>{c1}\<close> at address 1, the call changes the value read
  through \<^verbatim>\<open>a\<close>, and the result holds \<^verbatim>\<open>a\<close>'s reference.
\<close>

theorem Add_store_mutates_receiver:
  "deref (snd (Add_store ((\<lambda>_. {})(1 := {''c1''}))
          \<lparr>commitset = 0, added = 0, removed = 0, lastCommitTime = 0, numTallied = 0\<rparr>
          \<lparr>commitset = 1, added = 2, removed = 0, lastCommitTime = 5, numTallied = 1\<rparr>))
        \<lparr>commitset = 0, added = 0, removed = 0, lastCommitTime = 0, numTallied = 0\<rparr>
     \<noteq> deref ((\<lambda>_. {})(1 := {''c1''}))
        \<lparr>commitset = 0, added = 0, removed = 0, lastCommitTime = 0, numTallied = 0\<rparr>
   \<and> commitset (fst (Add_store ((\<lambda>_. {})(1 := {''c1''}))
          \<lparr>commitset = 0, added = 0, removed = 0, lastCommitTime = 0, numTallied = 0\<rparr>
          \<lparr>commitset = 1, added = 2, removed = 0, lastCommitTime = 5, numTallied = 1\<rparr>))
       = (0::nat)"
  by (simp add: Add_store_def deref_def Let_def)

text \<open>
  Claim C2, amended: \<^verbatim>\<open>a.Add(b)\<close> returns a partial whose value is the combination of
  the operands' values before the call; every map table other than \<^verbatim>\<open>a\<close>'s is left
  unchanged, so \<^verbatim>\<open>b\<close> keeps its value when it does not share \<^verbatim>\<open>a\<close>'s table; the
  table of \<^verbatim>\<open>a\<close> is updated in place to the union and the result holds the same
  reference, so after the call \<^verbatim>\<open>a\<close> reads the union as its commit set.
\<close>

theorem Add_store_effect:
  "commitset b \<noteq> commitset a \<Longrightarrow>
     deref (snd (Add_store h a b)) (fst (Add_store h a b)) = Add (deref h a) (deref h b)
   \<and> deref (snd (Add_store h a b)) b = deref h b
   \<and> (\<forall>p. p \<noteq> commitset a \<longrightarrow> snd (Add_store h a b) p = h p)
   \<and> commitset (fst (Add_store h a b)) = commitset a
   \<and> commitset (deref (snd (Add_store h a b)) a) = commitset (deref h a) \<union> commitset (deref h b)"
  by (simp add: Add_store_def deref_def Add_def Let_def)

theorem Add_store_effect_witness:
  "deref (snd (Add_store ((\<lambda>_. {})(1 := {''c1''}))
          \<lparr>commitset = 0, added = 0, removed = 0, lastCommitTime = 0, numTallied = 0\<rparr>
          \<lparr>commitset = 1, added = 2, removed = 0, lastCommitTime = 5, numTallied = 1\<rparr>))
        \<lparr>commitset = 1, added = 2, removed = 0, lastCommitTime = 5, numTallied = 1\<rparr>
     = \<lparr>commitset = {''c1''}, added = 2, removed = 0, lastCommitTime = 5, numTallied = 1\<rparr>
   \<and> deref (snd (Add_store ((\<lambda>_. {})(1 := {''c1''}))
          \<lparr>commitset = 0, added = 0, removed = 0, lastCommitTime = 0, numTallied = 0\<rparr>
          \<lparr>commitset = 1, added = 2, removed = 0, lastCommitTime = 5, numTallied = 1\<rparr>))
        (fst (Add_store ((\<lambda>_. {})(1 := {''c1''}))
          \<lparr>commitset = 0, added = 0, removed = 0, lastCommitTime = 0, numTallied = 0\<rparr>
          \<lparr>commitset = 1, added = 2, removed = 0, lastCommitTime = 5, numTallied = 1\<rparr>))
     = \<lparr>commitset = {''c1''}, added = 2, removed = 0, lastCommitTime = 5, numTallied = 1\<rparr>"
  using Add_store_effect [of
      "\<lparr>commitset = 1, added = 2, removed = 0, lastCommitTime = 5, numTallied = 1\<rparr>"
      "\<lparr>commitset = 0, added = 0, removed = 0, lastCommitTime = 0, numTallied = 0\<rparr>"
      "(\<lambda>_. {})(1 := {''c1''})"]
  by (simp add: deref_def Add_def timeutils_Max_def)

section \<open>Properties of the ranking\<close>

lemma SortKey_valid: "validMode mode \<Longrightarrow> \<exists>k. SortKey t mode = Some k"
  by (auto simp: validMode_def SortKey_def mode_defs)

lemma Compare_valid:
  assumes "SortKey a mode = Some ka" "SortKey b mode = Some kb"
  shows "Compare a b mode = Some (if ka < kb then - 1 else if kb < ka then 1
           else time_Compare (LastCommitTime a) (LastCommitTime b))"
  using assms by (simp add: Compare_def)

lemma cmp_le_iff:
  assumes "validMode mode"
  shows "\<exists>c. map_option uminus (Compare a b mode) = Some c \<and> (c \<le> 0 \<longleftrightarrow> ranksAbove mode a b)"
proof -
  obtain ka kb where k: "SortKey a mode = Some ka" "SortKey b mode = Some kb"
    using SortKey_valid[OF assms] by blast
  show ?thesis
    by (auto simp: Compare_valid[OF k] ranksAbove_def k time_Compare_def)
qed

lemma ranksAbove_total: "validMode mode \<Longrightarrow> \<not> ranksAbove mode a b \<Longrightarrow> ranksAbove mode b a"
  using SortKey_valid[of mode a] SortKey_valid[of mode b]
  by (auto simp: ranksAbove_def)

lemma ranksAbove_trans: "ranksAbove mode a b \<Longrightarrow> ranksAbove mode b c \<Longrightarrow> ranksAbove mode a c"
  by (auto simp: ranksAbove_def)

lemma insertFunc_Some:
  assumes "\<And>a b. \<exists>c. cmp a b = Some c"
  shows "\<exists>ys. insertFunc cmp x xs = Some ys"
proof (induction xs)
  case Nil show ?case by simp
next
  case (Cons y ys)
  obtain c where "cmp x y = Some c" using assms by blast
  with Cons show ?case by auto
qed

lemma insertFunc_mset: "insertFunc cmp x xs = Some ys \<Longrightarrow> mset ys = add_mset x (mset xs)"
  by (induction xs arbitrary: ys) (auto split: option.splits if_splits)

lemma SortedFunc_mset: "SortedFunc xs cmp = Some ys \<Longrightarrow> mset ys = mset xs"
  by (induction xs arbitrary: ys) (auto split: option.splits dest: insertFunc_mset)

lemma SortedFunc_Some:
  assumes "\<And>a b. \<exists>c. cmp a b = Some c"
  shows "\<exists>ys. SortedFunc xs cmp = Some ys"
proof (induction xs)
  case Nil show ?case by simp
next
  case (Cons x xs)
  then obtain ys where "SortedFunc xs cmp = Some ys" by blast
  moreover have "\<exists>zs. insertFunc cmp x ys = Some zs" using assms by (rule insertFunc_Some)
  ultimately show ?case by auto
qed

lemma insertFunc_sorted:
  assumes le: "\<And>a b. \<exists>c. cmp a b = Some c \<and> (c \<le> 0 \<longleftrightarrow> R a b)"
    and total: "\<And>a b. \<not> R a b \<Longrightarrow> R b a"
    and trans: "\<And>a b c. R a b \<Longrightarrow> R b c \<Longrightarrow> R a c"
  shows "sorted_wrt R xs \<Longrightarrow> insertFunc cmp x xs = Some ys \<Longrightarrow> sorted_wrt R ys"
proof (induction xs arbitrary: ys)
  case Nil then show ?case by auto
next
  case (Cons y zs)
  obtain c where c: "cmp x y = Some c" "c \<le> 0 \<longleftrightarrow> R x y" using le by blast
  show ?case
  proof (cases "c \<le> 0")
    case True
    with c Cons.prems have ys: "ys = x # y # zs" and "R x y" by auto
    with Cons.prems(1) trans show ?thesis by auto
  next
    case False
    with c Cons.prems obtain ws where ws: "insertFunc cmp x zs = Some ws" "ys = y # ws" by auto
    from Cons.prems(1) have "sorted_wrt R zs" by simp
    with Cons.IH ws have "sorted_wrt R ws" by blast
    moreover have "R y x" using False c total by blast
    moreover have "set ws = insert x (set zs)"
      using insertFunc_mset[OF ws(1)] by (metis set_mset_add_mset_insert set_mset_mset)
    ultimately show ?thesis using Cons.prems(1) ws by auto
  qed
qed

lemma SortedFunc_sorted:
  assumes le: "\<And>a b. \<exists>c. cmp a b = Some c \<and> (c \<le> 0 \<longleftrightarrow> R a b)"
    and total: "\<And>a b. \<not> R a b \<Longrightarrow> R b a"
    and trans: "\<And>a b c. R a b \<Longrightarrow> R b c \<Longrightarrow> R a c"
  shows "SortedFunc xs cmp = Some ys \<Longrightarrow> sorted_wrt R ys"
proof (induction xs arbitrary: ys)
  case Nil then show ?case by simp
next
  case (Cons x xs)
  then obtain zs where zs: "SortedFunc xs cmp = Some zs" "insertFunc cmp x zs = Some ys"
    by (auto split: option.splits)
  from Cons.IH[OF zs(1)] have "sorted_wrt R zs" .
  then show ?case using zs(2) le total trans by (rule insertFunc_sorted[rotated 3])
qed

lemma sortTallies_valid:
  assumes "validMode mode"
  shows "\<exists>out. sortTallies ts mode = Some out \<and> mset out = mset (map snd ts)
     \<and> sorted_wrt (ranksAbove mode) out"
proof -
  let ?cmp = "\<lambda>a b. map_option uminus (Compare a b mode)"
  have le: "\<And>a b. \<exists>c. ?cmp a b = Some c \<and> (c \<le> 0 \<longleftrightarrow> ranksAbove mode a b)"
    using cmp_le_iff[OF assms] by blast
  then have "\<And>a b. \<exists>c. ?cmp a b = Some c" by blast
  then have "\<exists>out. SortedFunc (map snd ts) ?cmp = Some out" by (rule SortedFunc_Some)
  then obtain out where out: "SortedFunc (map snd ts) ?cmp = Some out" by blast
  have "sorted_wrt (ranksAbove mode) out"
    using out
  proof (rule SortedFunc_sorted[rotated 3])
    show "\<And>a b. \<exists>c. ?cmp a b = Some c \<and> (c \<le> 0 \<longleftrightarrow> ranksAbove mode a b)" by (rule le)
    show "\<And>a b. \<not> ranksAbove mode a b \<Longrightarrow> ranksAbove mode b a"
      by (rule ranksAbove_total[OF assms])
    show "\<And>a b c. ranksAbove mode a b \<Longrightarrow> ranksAbove mode b c \<Longrightarrow> ranksAbove mode a c"
      by (rule ranksAbove_trans)
  qed
  with out SortedFunc_mset[OF out] show ?thesis by (simp add: sortTallies_def)
qed

text \<open>
  Claim C6: for every map of tallies and every mode of the enumerated set, the sequence
  returned by \<^verbatim>\<open>sortTallies\<close> holds the values of the map, is non-increasing by
  \<^verbatim>\<open>SortKey(mode)\<close>, and among entries with equal sort key is non-increasing by
  last-commit time.
\<close>

theorem sortTallies_ranking:
  assumes "mode = CommitMode \<or> mode = LinesMode \<or> mode = FilesMode \<or> mode = LastModifiedMode"
  shows "\<exists>out. sortTallies ts mode = Some out
     \<and> mset out = mset (map snd ts)
     \<and> sorted_wrt (\<lambda>a b. \<exists>ka kb. SortKey a mode = Some ka \<and> SortKey b mode = Some kb
            \<and> kb \<le> ka \<and> (ka = kb \<longrightarrow> LastCommitTime b \<le> LastCommitTime a)) out"
proof -
  have v: "validMode mode" using assms by (simp add: validMode_def)
  from sortTallies_valid[OF v, of ts] obtain out where
    out: "sortTallies ts mode = Some out" "mset out = mset (map snd ts)"
      "sorted_wrt (ranksAbove mode) out" by blast
  have "sorted_wrt (\<lambda>a b. \<exists>ka kb. SortKey a mode = Some ka \<and> SortKey b mode = Some kb
            \<and> kb \<le> ka \<and> (ka = kb \<longrightarrow> LastCommitTime b \<le> LastCommitTime a)) out"
    by (rule sorted_wrt_mono_rel[OF _ out(3)]) (auto simp: ranksAbove_def)
  with out show ?thesis by blast
qed


theorem sortTallies_ranking_witness:
  "(CommitMode = CommitMode \<or> CommitMode = LinesMode \<or> CommitMode = FilesMode
      \<or> CommitMode = LastModifiedMode)
   \<and> sortTallies
        [(''a'', zeroTally\<lparr>Commits := 1, LastCommitTime := 7\<rparr>),
         (''b'', zeroTally\<lparr>Commits := 2, LastCommitTime := 5\<rparr>),
         (''c'', zeroTally\<lparr>Commits := 1, LastCommitTime := 9\<rparr>)] CommitMode
      = Some [zeroTally\<lparr>Commits := 2, LastCommitTime := 5\<rparr>,
              zeroTally\<lparr>Commits := 1, LastCommitTime := 9\<rparr>,
              zeroTally\<lparr>Commits := 1, LastCommitTime := 7\<rparr>]
   \<and> (\<exists>out. sortTallies
        [(''a'', zeroTally\<lparr>Commits := 1, LastCommitTime := 7\<rparr>),
         (''b'', zeroTally\<lparr>Commits := 2, LastCommitTime := 5\<rparr>),
         (''c'', zeroTally\<lparr>Commits := 1, LastCommitTime := 9\<rparr>)] CommitMode = Some out
      \<and> sorted_wrt (\<lambda>a b. \<exists>ka kb. SortKey a CommitMode = Some ka
            \<and> SortKey b CommitMode = Some kb
            \<and> kb \<le> ka \<and> (ka = kb \<longrightarrow> LastCommitTime b \<le> LastCommitTime a)) out)"
proof -
  have h: "CommitMode = CommitMode \<or> CommitMode = LinesMode \<or> CommitMode = FilesMode
      \<or> CommitMode = LastModifiedMode" by simp
  have ev: "sortTallies
        [(''a'', zeroTally\<lparr>Commits := 1, LastCommitTime := 7\<rparr>),
         (''b'', zeroTally\<lparr>Commits := 2, LastCommitTime := 5\<rparr>),
         (''c'', zeroTally\<lparr>Commits := 1, LastCommitTime := 9\<rparr>)] CommitMode
      = Some [zeroTally\<lparr>Commits := 2, LastCommitTime := 5\<rparr>,
              zeroTally\<lparr>Commits := 1, LastCommitTime := 9\<rparr>,
              zeroTally\<lparr>Commits := 1, LastCommitTime := 7\<rparr>]"
    by (simp add: sortTallies_def Compare_def SortKey_def mode_defs time_Compare_def)
  from sortTallies_ranking[OF h] show ?thesis using h ev by blast
qed

text \<open>
  Claim C9: under a configuration whose mode is one of \<^verbatim>\<open>CommitMode\<close>, \<^verbatim>\<open>LinesMode\<close>,
  \<^verbatim>\<open>FilesMode\<close>, \<^verbatim>\<open>LastModifiedMode\<close>, every call of \<^verbatim>\<open>SortKey\<close> made by the engine
  and the pipelines returns a value: \<^verbatim>\<open>SortKey\<close>, \<^verbatim>\<open>Compare\<close>, \<^verbatim>\<open>sortTallies\<close>,
  \<^verbatim>\<open>TallyCommits\<close> and both \<^verbatim>\<open>finalize\<close> closures do not panic.
\<close>

theorem SortKey_no_panic:
  assumes "Mode opts = CommitMode \<or> Mode opts = LinesMode \<or> Mode opts = FilesMode
      \<or> Mode opts = LastModifiedMode"
  shows "SortKey t (Mode opts) \<noteq> None
     \<and> Compare a b (Mode opts) \<noteq> None
     \<and> sortTallies ts (Mode opts) \<noteq> None
     \<and> TallyCommits commits wtreefiles allowOutsideWorktree opts \<noteq> None
     \<and> TallyCommitsApplyMerge_finalize opts ts \<noteq> None
     \<and> TallyCommitsDiffApplyMerge_finalize wtreefiles allowOutsideWorktree opts authors \<noteq> None"
proof -
  have v: "validMode (Mode opts)" using assms by (simp add: validMode_def)
  have s: "\<And>xs. sortTallies xs (Mode opts) \<noteq> None"
    using sortTallies_valid[OF v] by fastforce
  have k: "\<And>x. SortKey x (Mode opts) \<noteq> None"
    using SortKey_valid[OF v] by fastforce
  have c: "Compare a b (Mode opts) \<noteq> None"
    using cmp_le_iff[OF v, of a b] by auto
  have t: "TallyCommits commits wtreefiles allowOutsideWorktree opts \<noteq> None"
    using s by (simp add: TallyCommits_def split: sum.splits)
  show ?thesis
    using s k c t
    by (simp add: TallyCommitsApplyMerge_finalize_def TallyCommitsDiffApplyMerge_finalize_def)
qed

text \<open>
  The panic itself is reachable from \<^verbatim>\<open>TallyCommits\<close> with a mode outside the
  enumeration, as soon as two tallies are compared.
\<close>

lemma SortKey_panics_outside_enumeration:
  "SortKey t 4 = None
   \<and> TallyCommits
        [Inr \<lparr>Hash = ''h1'', Commit_AuthorName = ''A'', Commit_AuthorEmail = ''a@x'',
              Date = 1, FileDiffs = []\<rparr>,
         Inr \<lparr>Hash = ''h2'', Commit_AuthorName = ''B'', Commit_AuthorEmail = ''b@x'',
              Date = 2, FileDiffs = []\<rparr>]
        {} True \<lparr>Mode = 4, Key = Commit_AuthorEmail\<rparr> = None"
  by (simp add: SortKey_def mode_defs TallyCommits_def tallyCommits_def IsDiffMode_def
      lookupTally_def sortTallies_def Compare_def Let_def)

theorem SortKey_no_panic_witness:
  "(Mode \<lparr>Mode = LastModifiedMode, Key = Commit_AuthorEmail\<rparr> = CommitMode
      \<or> Mode \<lparr>Mode = LastModifiedMode, Key = Commit_AuthorEmail\<rparr> = LinesMode
      \<or> Mode \<lparr>Mode = LastModifiedMode, Key = Commit_AuthorEmail\<rparr> = FilesMode
      \<or> Mode \<lparr>Mode = LastModifiedMode, Key = Commit_AuthorEmail\<rparr> = LastModifiedMode)
   \<and> SortKey (zeroTally\<lparr>LastCommitTime := 7000000000\<rparr>)
        (Mode \<lparr>Mode = LastModifiedMode, Key = Commit_AuthorEmail\<rparr>) = Some 7
   \<and> TallyCommits
        [Inr \<lparr>Hash = ''h1'', Commit_AuthorName = ''A'', Commit_AuthorEmail = ''a@x'',
              Date = 1, FileDiffs = []\<rparr>,
         Inr \<lparr>Hash = ''h2'', Commit_AuthorName = ''B'', Commit_AuthorEmail = ''b@x'',
              Date = 2, FileDiffs = []\<rparr>]
        {} True \<lparr>Mode = LastModifiedMode, Key = Commit_AuthorEmail\<rparr> \<noteq> None"
proof -
  have h: "Mode \<lparr>Mode = LastModifiedMode, Key = Commit_AuthorEmail\<rparr> = CommitMode
      \<or> Mode \<lparr>Mode = LastModifiedMode, Key = Commit_AuthorEmail\<rparr> = LinesMode
      \<or> Mode \<lparr>Mode = LastModifiedMode, Key = Commit_AuthorEmail\<rparr> = FilesMode
      \<or> Mode \<lparr>Mode = LastModifiedMode, Key = Commit_AuthorEmail\<rparr> = LastModifiedMode"
    by simp
  have ev: "SortKey (zeroTally\<lparr>LastCommitTime := 7000000000\<rparr>)
        (Mode \<lparr>Mode = LastModifiedMode, Key = Commit_AuthorEmail\<rparr>) = Some 7"
    by (simp add: SortKey_def mode_defs Unix_def)
  from SortKey_no_panic[OF h] show ?thesis using h ev by blast
qed

section \<open>Properties of the sequential engine\<close>

lemma tallyCommits_simple_error:
  "tallyCommits_simple opts (map Inr cs @ Inl e # rest) at
     = Inl (fmt_Errorf ''error iterating commits: '' e)"
  by (induction cs arbitrary: at) (simp_all add: Let_def)

lemma tallyByPaths_loop_error:
  "tallyByPaths_loop opts (map Inr cs @ Inl e # rest) au
     = Inl (fmt_Errorf ''error iterating commits: '' e)"
  by (induction cs arbitrary: au) simp_all

lemma tallyCommits_simple_Inl:
  "tallyCommits_simple opts cs at = Inl err \<Longrightarrow> \<exists>e. err = fmt_Errorf ''error iterating commits: '' e"
  by (induction opts cs at rule: tallyCommits_simple.induct) (auto simp: Let_def)

lemma tallyByPaths_loop_Inl:
  "tallyByPaths_loop opts cs au = Inl err \<Longrightarrow> \<exists>e. err = fmt_Errorf ''error iterating commits: '' e"
  by (induction opts cs au rule: tallyByPaths_loop.induct) auto

lemma tallyCommits_Inl:
  "tallyCommits cs w allow opts = Inl err \<Longrightarrow> \<exists>e. err = fmt_Errorf ''error iterating commits: '' e"
  by (auto simp: tallyCommits_def tallyByPaths_def split: if_splits sum.splits
      dest: tallyCommits_simple_Inl tallyByPaths_loop_Inl)

text \<open>
  Claim C7: when the commit sequence yields an error on an element (after any number of
  commits), \<^verbatim>\<open>tallyCommits\<close> and \<^verbatim>\<open>TallyCommits\<close> return no result and an error that
  wraps the error of the sequence with context. The result is the same whatever follows
  the failing element: no later element is consumed.
\<close>

theorem tallyCommits_aborts_on_error:
  "tallyCommits (map Inr cs @ Inl e # rest) wtreefiles allowOutsideWorktree opts
     = Inl (fmt_Errorf ''error iterating commits: '' e)
   \<and> TallyCommits (map Inr cs @ Inl e # rest) wtreefiles allowOutsideWorktree opts
     = Some (Inl (fmt_Errorf ''error iterating commits: '' e))"
  by (simp add: tallyCommits_def TallyCommits_def tallyByPaths_def
      tallyCommits_simple_error tallyByPaths_loop_error)

text \<open>
  Claim C8: with \<^verbatim>\<open>LinesMode\<close> or \<^verbatim>\<open>FilesMode\<close> the \<^verbatim>\<open>apply\<close> closure returned by
  \<^verbatim>\<open>TallyCommitsApplyMerge\<close> returns no map and the error "unsupported tally mode" for
  every commit sequence, so before any commit is processed; with \<^verbatim>\<open>CommitMode\<close> or
  \<^verbatim>\<open>LastModifiedMode\<close> it is \<^verbatim>\<open>tallyCommits\<close> and never returns that error.
\<close>

theorem apply_rejects_diff_mode:
  "(Mode opts = LinesMode \<or> Mode opts = FilesMode \<longrightarrow>
      fst (TallyCommitsApplyMerge wtreeset allowOutsideWorktree opts) commits
        = Inl (errors_New ''unsupported tally mode''))
   \<and> (Mode opts = CommitMode \<or> Mode opts = LastModifiedMode \<longrightarrow>
      fst (TallyCommitsApplyMerge wtreeset allowOutsideWorktree opts) commits
        = tallyCommits commits wtreeset allowOutsideWorktree opts
      \<and> fst (TallyCommitsApplyMerge wtreeset allowOutsideWorktree opts) commits
        \<noteq> Inl (errors_New ''unsupported tally mode''))"
proof -
  have "tallyCommits commits wtreeset allowOutsideWorktree opts
      \<noteq> Inl (errors_New ''unsupported tally mode'')"
    using tallyCommits_Inl by fastforce
  then show ?thesis
    by (auto simp: TallyCommitsApplyMerge_def TallyCommitsApplyMerge_apply_def IsDiffMode_def
        mode_defs)
qed

theorem apply_rejects_diff_mode_witness:
  "(Mode \<lparr>Mode = LinesMode, Key = Commit_AuthorEmail\<rparr> = LinesMode
      \<or> Mode \<lparr>Mode = LinesMode, Key = Commit_AuthorEmail\<rparr> = FilesMode)
   \<and> fst (TallyCommitsApplyMerge {} True \<lparr>Mode = LinesMode, Key = Commit_AuthorEmail\<rparr>)
        [Inl (errors_New ''unreadable'')]
      = Inl (errors_New ''unsupported tally mode'')
   \<and> (Mode \<lparr>Mode = CommitMode, Key = Commit_AuthorEmail\<rparr> = CommitMode
      \<or> Mode \<lparr>Mode = CommitMode, Key = Commit_AuthorEmail\<rparr> = LastModifiedMode)
   \<and> fst (TallyCommitsApplyMerge {} True \<lparr>Mode = CommitMode, Key = Commit_AuthorEmail\<rparr>)
        [Inl (errors_New ''unreadable'')]
      = Inl (fmt_Errorf ''error iterating commits: '' (errors_New ''unreadable''))"
proof -
  have ev: "tallyCommits [Inl (errors_New ''unreadable'')] {} True
      \<lparr>Mode = CommitMode, Key = Commit_AuthorEmail\<rparr>
      = Inl (fmt_Errorf ''error iterating commits: '' (errors_New ''unreadable''))"
    by (simp add: tallyCommits_def IsDiffMode_def mode_defs)
  show ?thesis
    using apply_rejects_diff_mode[of "\<lparr>Mode = LinesMode, Key = Commit_AuthorEmail\<rparr>" "{}" True
        "[Inl (errors_New ''unreadable'')]"]
      apply_rejects_diff_mode[of "\<lparr>Mode = CommitMode, Key = Commit_AuthorEmail\<rparr>" "{}" True
        "[Inl (errors_New ''unreadable'')]"] ev
    by simp
qed

lemma tallyCommits_simple_fold:
  "tallyCommits_simple opts (map Inr cs) at = Inr (fold (simpleStep opts) cs at)"
  by (induction cs arbitrary: at) (simp_all add: Let_def simpleStep_def)

lemma distinct_simpleStep:
  "distinct (map fst at) \<Longrightarrow> distinct (map fst (simpleStep opts c at))"
  by (simp add: simpleStep_def distinct_update)

lemma distinct_fold_simpleStep:
  "distinct (map fst at) \<Longrightarrow> distinct (map fst (fold (simpleStep opts) cs at))"
  by (induction cs arbitrary: at) (simp_all add: distinct_simpleStep)

lemma map_of_simpleStep_other:
  "Key opts c \<noteq> k \<Longrightarrow> map_of (simpleStep opts c at) k = map_of at k"
  by (simp add: simpleStep_def update_conv')

lemma map_of_simpleStep_same:
  "map_of (simpleStep opts c at) (Key opts c) =
     Some ((lookupTally at (Key opts c))\<lparr>
           AuthorName := Commit_AuthorName c,
           AuthorEmail := Commit_AuthorEmail c,
           Commits := Commits (lookupTally at (Key opts c)) + 1,
           LastCommitTime := timeutils_Max (Date c)
              (LastCommitTime (lookupTally at (Key opts c)))\<rparr>)"
  by (simp add: simpleStep_def update_conv')

lemma map_of_fold_simpleStep_other:
  "k \<notin> Key opts ` set cs \<Longrightarrow> map_of (fold (simpleStep opts) cs at) k = map_of at k"
  by (induction cs arbitrary: at) (auto simp: map_of_simpleStep_other)

lemma map_of_fold_simpleStep_dom:
  "k \<in> Key opts ` set cs \<Longrightarrow> \<exists>t. map_of (fold (simpleStep opts) cs at) k = Some t"
proof (induction cs arbitrary: at)
  case Nil then show ?case by simp
next
  case (Cons c cs)
  show ?case
  proof (cases "k \<in> Key opts ` set cs")
    case True
    with Cons.IH show ?thesis by simp
  next
    case False
    with Cons.prems have "Key opts c = k" by auto
    with False show ?thesis
      using map_of_simpleStep_same[of opts c at]
      by (simp add: map_of_fold_simpleStep_other)
  qed
qed

lemma lookupTally_simpleStep:
  "lookupTally (simpleStep opts c at) k =
     (if Key opts c = k
      then (lookupTally at k)\<lparr>
           AuthorName := Commit_AuthorName c,
           AuthorEmail := Commit_AuthorEmail c,
           Commits := Commits (lookupTally at k) + 1,
           LastCommitTime := timeutils_Max (Date c) (LastCommitTime (lookupTally at k))\<rparr>
      else lookupTally at k)"
  using map_of_simpleStep_same[of opts c at] map_of_simpleStep_other[of opts c k at]
  by (auto simp: lookupTally_def)

lemma Commits_fold_simpleStep:
  "Commits (lookupTally (fold (simpleStep opts) cs at) k)
     = Commits (lookupTally at k) + commitCount opts k cs"
  by (induction cs arbitrary: at) (simp_all add: commitCount_def lookupTally_simpleStep)

lemma frame_fold_simpleStep:
  "LinesAdded (lookupTally (fold (simpleStep opts) cs at) k) = LinesAdded (lookupTally at k)
   \<and> LinesRemoved (lookupTally (fold (simpleStep opts) cs at) k) = LinesRemoved (lookupTally at k)
   \<and> FileCount (lookupTally (fold (simpleStep opts) cs at) k) = FileCount (lookupTally at k)"
  by (induction cs arbitrary: at) (simp_all add: lookupTally_simpleStep)

lemma Max_insert_max:
  "finite A \<Longrightarrow> Max (insert (max a b) A) = Max (insert a (insert b A))"
  by (cases "A = {}") (simp_all add: max.assoc)

lemma LastCommitTime_fold_simpleStep:
  "LastCommitTime (lookupTally (fold (simpleStep opts) cs at) k)
     = Max (insert (LastCommitTime (lookupTally at k)) (Date ` {c \<in> set cs. Key opts c = k}))"
proof (induction cs arbitrary: at)
  case Nil show ?case by simp
next
  case (Cons c cs)
  let ?S = "Date ` {x \<in> set cs. Key opts x = k}"
  let ?t0 = "LastCommitTime (lookupTally at k)"
  have fin: "finite ?S" by simp
  have IH: "LastCommitTime (lookupTally (fold (simpleStep opts) (c # cs) at) k)
      = Max (insert (LastCommitTime (lookupTally (simpleStep opts c at) k)) ?S)"
    using Cons.IH[of "simpleStep opts c at"] by simp
  show ?case
  proof (cases "Key opts c = k")
    case True
    have eq: "Date ` {x \<in> set (c # cs). Key opts x = k} = insert (Date c) ?S"
      using True by auto
    have "LastCommitTime (lookupTally (simpleStep opts c at) k) = max ?t0 (Date c)"
      using True by (simp add: lookupTally_simpleStep timeutils_Max_max max.commute)
    then have "LastCommitTime (lookupTally (fold (simpleStep opts) (c # cs) at) k)
        = Max (insert (max ?t0 (Date c)) ?S)"
      using IH by simp
    also have "\<dots> = Max (insert ?t0 (insert (Date c) ?S))"
      using fin by (rule Max_insert_max)
    finally show ?thesis unfolding eq .
  next
    case False
    have eq: "Date ` {x \<in> set (c # cs). Key opts x = k} = ?S"
      using False by auto
    have "LastCommitTime (lookupTally (simpleStep opts c at) k) = ?t0"
      using False by (simp add: lookupTally_simpleStep)
    then show ?thesis using IH unfolding eq by simp
  qed
qed

lemma name_fold_simpleStep:
  "k \<in> Key opts ` set cs \<Longrightarrow>
     \<exists>c\<in>set cs. Key opts c = k
        \<and> AuthorName (lookupTally (fold (simpleStep opts) cs at) k) = Commit_AuthorName c
        \<and> AuthorEmail (lookupTally (fold (simpleStep opts) cs at) k) = Commit_AuthorEmail c"
proof (induction cs arbitrary: at)
  case Nil then show ?case by simp
next
  case (Cons c cs)
  show ?case
  proof (cases "k \<in> Key opts ` set cs")
    case True
    from Cons.IH[OF True, of "simpleStep opts c at"] show ?thesis by auto
  next
    case False
    with Cons.prems have kc: "Key opts c = k" by auto
    have "lookupTally (fold (simpleStep opts) cs (simpleStep opts c at)) k
        = lookupTally (simpleStep opts c at) k"
      using False by (simp add: lookupTally_def map_of_fold_simpleStep_other)
    with kc show ?thesis by (simp add: lookupTally_simpleStep)
  qed
qed

text \<open>
  Claim C10: in the simple strategy (non-diff mode, \<^verbatim>\<open>allowOutsideWorktree\<close> set) the
  tallies returned by \<^verbatim>\<open>TallyCommits\<close> are the values of a map with one entry per
  author key of the sequence; each has zero lines added, lines removed and file count,
  and its \<^verbatim>\<open>Commits\<close> is the number of elements of the sequence with that author key,
  so a commit delivered twice is counted twice.
\<close>

theorem simple_strategy_counts:
  assumes "\<not> IsDiffMode opts"
    and "TallyCommits (map Inr cs) wtreefiles True opts = Some (Inr ts)"
  shows "\<exists>m. tallyCommits (map Inr cs) wtreefiles True opts = Inr m
     \<and> distinct (map fst m)
     \<and> fst ` set m = Key opts ` set cs
     \<and> mset ts = mset (map snd m)
     \<and> (\<forall>(k, t) \<in> set m.
           Commits t = int (length (filter (\<lambda>c. Key opts c = k) cs))
         \<and> LinesAdded t = 0 \<and> LinesRemoved t = 0 \<and> FileCount t = 0)"
proof -
  let ?m = "fold (simpleStep opts) cs []"
  have m: "tallyCommits (map Inr cs) wtreefiles True opts = Inr ?m"
    using assms(1) by (simp add: tallyCommits_def tallyCommits_simple_fold)
  have d: "distinct (map fst ?m)" by (simp add: distinct_fold_simpleStep)
  have keys: "fst ` set ?m = Key opts ` set cs"
  proof (rule set_eqI)
    fix k
    have "k \<in> fst ` set ?m \<longleftrightarrow> map_of ?m k \<noteq> None"
      by (simp add: map_of_eq_None_iff)
    also have "\<dots> \<longleftrightarrow> k \<in> Key opts ` set cs"
      using map_of_fold_simpleStep_dom[of k opts cs "[]"]
        map_of_fold_simpleStep_other[of k opts cs "[]"]
      by (cases "k \<in> Key opts ` set cs") auto
    finally show "k \<in> fst ` set ?m \<longleftrightarrow> k \<in> Key opts ` set cs" .
  qed
  from assms(2) m have "sortTallies ?m (Mode opts) = Some ts"
    by (auto simp: TallyCommits_def)
  then have ms: "mset ts = mset (map snd ?m)"
    by (simp add: sortTallies_def SortedFunc_mset)
  have vals: "\<forall>(k, t) \<in> set ?m.
           Commits t = int (length (filter (\<lambda>c. Key opts c = k) cs))
         \<and> LinesAdded t = 0 \<and> LinesRemoved t = 0 \<and> FileCount t = 0"
  proof (clarify)
    fix k t assume "(k, t) \<in> set ?m"
    with d have "map_of ?m k = Some t" by simp
    then have t: "lookupTally ?m k = t" by (simp add: lookupTally_def)
    have z: "lookupTally [] k = zeroTally" by (simp add: lookupTally_def)
    show "Commits t = int (length (filter (\<lambda>c. Key opts c = k) cs))
         \<and> LinesAdded t = 0 \<and> LinesRemoved t = 0 \<and> FileCount t = 0"
      using Commits_fold_simpleStep[of opts cs "[]" k] frame_fold_simpleStep[of opts cs "[]" k]
      unfolding t z by (simp add: zeroTally_def commitCount_def)
  qed
  from m d keys ms vals show ?thesis by blast
qed

theorem simple_strategy_counts_witness:
  "\<not> IsDiffMode \<lparr>Mode = CommitMode, Key = Commit_AuthorEmail\<rparr>
   \<and> TallyCommits
        (map Inr
          [\<lparr>Hash = ''h1'', Commit_AuthorName = ''A'', Commit_AuthorEmail = ''a@x'',
             Date = 10, FileDiffs = []\<rparr>,
           \<lparr>Hash = ''h2'', Commit_AuthorName = ''B'', Commit_AuthorEmail = ''b@x'',
             Date = 20, FileDiffs = []\<rparr>,
           \<lparr>Hash = ''h1'', Commit_AuthorName = ''A'', Commit_AuthorEmail = ''a@x'',
             Date = 10, FileDiffs = []\<rparr>])
        {} True \<lparr>Mode = CommitMode, Key = Commit_AuthorEmail\<rparr>
      = Some (Inr
          [\<lparr>AuthorName = ''A'', AuthorEmail = ''a@x'', Commits = 2, LinesAdded = 0,
             LinesRemoved = 0, FileCount = 0, LastCommitTime = 10\<rparr>,
           \<lparr>AuthorName = ''B'', AuthorEmail = ''b@x'', Commits = 1, LinesAdded = 0,
             LinesRemoved = 0, FileCount = 0, LastCommitTime = 20\<rparr>])
   \<and> (\<exists>m. tallyCommits
        (map Inr
          [\<lparr>Hash = ''h1'', Commit_AuthorName = ''A'', Commit_AuthorEmail = ''a@x'',
             Date = 10, FileDiffs = []\<rparr>,
           \<lparr>Hash = ''h2'', Commit_AuthorName = ''B'', Commit_AuthorEmail = ''b@x'',
             Date = 20, FileDiffs = []\<rparr>,
           \<lparr>Hash = ''h1'', Commit_AuthorName = ''A'', Commit_AuthorEmail = ''a@x'',
             Date = 10, FileDiffs = []\<rparr>])
        {} True \<lparr>Mode = CommitMode, Key = Commit_AuthorEmail\<rparr> = Inr m
      \<and> mset [\<lparr>AuthorName = ''A'', AuthorEmail = ''a@x'', Commits = 2, LinesAdded = 0,
             LinesRemoved = 0, FileCount = 0, LastCommitTime = 10\<rparr>,
           \<lparr>AuthorName = ''B'', AuthorEmail = ''b@x'', Commits = 1, LinesAdded = 0,
             LinesRemoved = 0, FileCount = 0, LastCommitTime = 20\<rparr>] = mset (map snd m))"
proof -
  have h: "\<not> IsDiffMode \<lparr>Mode = CommitMode, Key = Commit_AuthorEmail\<rparr>"
    by (simp add: IsDiffMode_def mode_defs)
  have ev: "TallyCommits
        (map Inr
          [\<lparr>Hash = ''h1'', Commit_AuthorName = ''A'', Commit_AuthorEmail = ''a@x'',
             Date = 10, FileDiffs = []\<rparr>,
           \<lparr>Hash = ''h2'', Commit_AuthorName = ''B'', Commit_AuthorEmail = ''b@x'',
             Date = 20, FileDiffs = []\<rparr>,
           \<lparr>Hash = ''h1'', Commit_AuthorName = ''A'', Commit_AuthorEmail = ''a@x'',
             Date = 10, FileDiffs = []\<rparr>])
        {} True \<lparr>Mode = CommitMode, Key = Commit_AuthorEmail\<rparr>
      = Some (Inr
          [\<lparr>AuthorName = ''A'', AuthorEmail = ''a@x'', Commits = 2, LinesAdded = 0,
             LinesRemoved = 0, FileCount = 0, LastCommitTime = 10\<rparr>,
           \<lparr>AuthorName = ''B'', AuthorEmail = ''b@x'', Commits = 1, LinesAdded = 0,
             LinesRemoved = 0, FileCount = 0, LastCommitTime = 20\<rparr>])"
    by (simp add: TallyCommits_def tallyCommits_def IsDiffMode_def mode_defs Let_def
        lookupTally_def zeroTally_def zeroTime_def timeutils_Max_def sortTallies_def
        Compare_def SortKey_def time_Compare_def)
  from simple_strategy_counts[OF h ev] show ?thesis using h ev by blast
qed

section \<open>Properties of the reduction over paths\<close>

lemma sumPaths_fold_gen:
  "fold (\<lambda>(path, pathTally) runningTally.
             if path \<in> w \<or> allow then Add runningTally pathTally else runningTally) ps r
   = \<lparr>commitset = commitset r \<union> (\<Union>(p, t) \<in> set (qualifying w allow ps). commitset t),
      added = added r + (\<Sum>(p, t) \<leftarrow> qualifying w allow ps. added t),
      removed = removed r + (\<Sum>(p, t) \<leftarrow> qualifying w allow ps. removed t),
      lastCommitTime = Max (insert (lastCommitTime r)
         ((\<lambda>(p, t). lastCommitTime t) ` set (qualifying w allow ps))),
      numTallied = numTallied r + (\<Sum>(p, t) \<leftarrow> qualifying w allow ps. numTallied t)\<rparr>"
proof (induction ps arbitrary: r)
  case Nil
  show ?case by (simp add: qualifying_def)
next
  case (Cons x ps)
  obtain p t where x: "x = (p, t)" by (cases x)
  let ?T = "(\<lambda>(p, t). lastCommitTime t) ` set (qualifying w allow ps)"
  have fin: "finite ?T" by simp
  show ?case
  proof (cases "p \<in> w \<or> allow")
    case True
    have q: "qualifying w allow (x # ps) = (p, t) # qualifying w allow ps"
      using True x by (simp add: qualifying_def)
    have m: "Max (insert (max (lastCommitTime r) (lastCommitTime t)) ?T)
        = Max (insert (lastCommitTime r) (insert (lastCommitTime t) ?T))"
      using fin by (cases "?T = {}") (simp_all add: max.assoc)
    have "fold (\<lambda>(path, pathTally) runningTally.
             if path \<in> w \<or> allow then Add runningTally pathTally else runningTally) (x # ps) r
        = fold (\<lambda>(path, pathTally) runningTally.
             if path \<in> w \<or> allow then Add runningTally pathTally else runningTally) ps (Add r t)"
      using True x by simp
    also note Cons.IH[of "Add r t"]
    finally show ?thesis
      unfolding q by (simp add: Add_def timeutils_Max_max m Un_assoc)
  next
    case False
    have q: "qualifying w allow (x # ps) = qualifying w allow ps"
      using False x by (simp add: qualifying_def)
    have "fold (\<lambda>(path, pathTally) runningTally.
             if path \<in> w \<or> allow then Add runningTally pathTally else runningTally) (x # ps) r
        = fold (\<lambda>(path, pathTally) runningTally.
             if path \<in> w \<or> allow then Add runningTally pathTally else runningTally) ps r"
      using False x by simp
    also note Cons.IH[of r]
    finally show ?thesis unfolding q .
  qed
qed

lemma sumPaths_eq:
  "sumPaths ps w allow
   = \<lparr>commitset = (\<Union>(p, t) \<in> set (qualifying w allow ps). commitset t),
      added = (\<Sum>(p, t) \<leftarrow> qualifying w allow ps. added t),
      removed = (\<Sum>(p, t) \<leftarrow> qualifying w allow ps. removed t),
      lastCommitTime = Max (insert zeroTime
         ((\<lambda>(p, t). lastCommitTime t) ` set (qualifying w allow ps))),
      numTallied = (\<Sum>(p, t) \<leftarrow> qualifying w allow ps. numTallied t)\<rparr>"
  unfolding sumPaths_def sumPaths_fold_gen by (simp add: newTally_def)

lemma Tally_all_fields:
  "t\<lparr>AuthorName := a, AuthorEmail := b\<rparr>\<lparr>Commits := c, LinesAdded := d, LinesRemoved := e,
      FileCount := f, LastCommitTime := g\<rparr>
   = \<lparr>AuthorName = a, AuthorEmail = b, Commits = c, LinesAdded = d, LinesRemoved = e,
      FileCount = f, LastCommitTime = g\<rparr>"
  by (cases t) simp

lemma sumOverPaths_fold:
  "sumOverPaths authors w allow
     = fold (\<lambda>(key, author). AList.update key (authorTallyOf w allow author)) authors []"
proof -
  have "(\<lambda>(key, author) authorTallies.
             let authorTally = lookupTally authorTallies key;
                 authorTally1 = authorTally\<lparr>AuthorName := name author,
                                  AuthorEmail := email author\<rparr>;
                 runningTally = sumPaths (paths author) w allow;
                 authorTally2 = authorTally1\<lparr>
                    Commits := intermediateTally_Commits runningTally,
                    LinesAdded := added runningTally,
                    LinesRemoved := removed runningTally,
                    FileCount := numTallied runningTally,
                    LastCommitTime := lastCommitTime runningTally\<rparr>
             in AList.update key authorTally2 authorTallies)
      = (\<lambda>(key, author). AList.update key (authorTallyOf w allow author))"
    by (intro ext) (simp add: Let_def Tally_all_fields authorTallyOf_def split: prod.splits)
  then show ?thesis unfolding sumOverPaths_def by simp
qed

lemma map_of_fold_update:
  "distinct (map fst xs) \<Longrightarrow>
   map_of (fold (\<lambda>(key, v). AList.update key (f v)) xs acc) k
   = (case map_of xs k of None \<Rightarrow> map_of acc k | Some v \<Rightarrow> Some (f v))"
proof (induction xs arbitrary: acc)
  case Nil show ?case by simp
next
  case (Cons x xs)
  obtain key v where x: "x = (key, v)" by (cases x)
  from Cons.prems x have d: "distinct (map fst xs)" and nk: "map_of xs key = None"
    by (auto simp: map_of_eq_None_iff)
  show ?case
    unfolding x using nk
    by (simp add: Cons.IH[OF d] update_conv' split: option.splits)
qed

lemma distinct_fold_update:
  "distinct (map fst acc) \<Longrightarrow>
   distinct (map fst (fold (\<lambda>(key, v). AList.update key (f v)) xs acc))"
  by (induction xs arbitrary: acc) (auto simp: distinct_update)

lemma map_of_sumOverPaths:
  "distinct (map fst authors) \<Longrightarrow>
   map_of (sumOverPaths authors w allow) k = map_option (authorTallyOf w allow) (map_of authors k)"
  by (simp add: sumOverPaths_fold map_of_fold_update split: option.splits)

lemma distinct_sumOverPaths: "distinct (map fst (sumOverPaths authors w allow))"
  by (simp add: sumOverPaths_fold distinct_fold_update)

lemma Union_qualifying:
  assumes "distinct (map fst (paths author))"
  shows "(\<Union>(p, t) \<in> set (qualifying w allow (paths author)). commitset t)
     = (\<Union>p \<in> {p. p \<in> w \<or> allow}. commitsetAt author p)"
proof (intro set_eqI iffI)
  fix c assume "c \<in> (\<Union>(p, t) \<in> set (qualifying w allow (paths author)). commitset t)"
  then obtain p t where pt: "(p, t) \<in> set (paths author)" "p \<in> w \<or> allow" "c \<in> commitset t"
    by (auto simp: qualifying_def)
  from pt(1) assms have "map_of (paths author) p = Some t" by simp
  then have "c \<in> commitsetAt author p" using pt(3) by (simp add: commitsetAt_def)
  with pt(2) show "c \<in> (\<Union>p \<in> {p. p \<in> w \<or> allow}. commitsetAt author p)"
    by blast
next
  fix c assume "c \<in> (\<Union>p \<in> {p. p \<in> w \<or> allow}. commitsetAt author p)"
  then obtain p where p: "p \<in> w \<or> allow" "c \<in> commitsetAt author p" by auto
  then obtain t where t: "map_of (paths author) p = Some t" "c \<in> commitset t"
    by (auto simp: commitsetAt_def split: option.splits)
  from t(1) have "(p, t) \<in> set (paths author)" by (rule map_of_SomeD)
  with p t show "c \<in> (\<Union>(p, t) \<in> set (qualifying w allow (paths author)). commitset t)"
    by (auto simp: qualifying_def)
qed

lemma Commits_sumOverPaths:
  assumes "distinct (map fst authors)" "map_of authors key = Some author"
    "distinct (map fst (paths author))"
  shows "Commits (lookupTally (sumOverPaths authors w allow) key)
     = int (card (\<Union>p \<in> {p. p \<in> w \<or> allow}. commitsetAt author p))"
  using assms
  by (simp add: lookupTally_def map_of_sumOverPaths authorTallyOf_def sumPaths_eq
      intermediateTally_Commits_def Union_qualifying)

lemma finite_Union_qualifying:
  assumes "\<forall>p. finite (commitsetAt author p)" "distinct (map fst (paths author))"
  shows "finite (\<Union>p \<in> {p. p \<in> w \<or> allow}. commitsetAt author p)"
proof -
  have "finite (\<Union>(p, t) \<in> set (qualifying w allow (paths author)). commitset t)"
  proof (rule finite_UN_I)
    show "finite (set (qualifying w allow (paths author)))" by simp
  next
    fix x assume x: "x \<in> set (qualifying w allow (paths author))"
    obtain p t where pt: "x = (p, t)" by (cases x)
    with x have "(p, t) \<in> set (paths author)" by (simp add: qualifying_def)
    with assms(2) have "map_of (paths author) p = Some t" by simp
    then have "commitsetAt author p = commitset t" by (simp add: commitsetAt_def)
    with assms(1) have "finite (commitset t)" by metis
    then show "finite (case x of (p, t) \<Rightarrow> commitset t)" by (simp add: pt)
  qed
  then show ?thesis by (simp add: Union_qualifying[OF assms(2)])
qed

text \<open>
  Claim C4: for every author entry of the table, the tally built by \<^verbatim>\<open>sumOverPaths\<close>
  is made of exactly the entries of the author's path map whose path is in the
  working-tree set or for which \<^verbatim>\<open>allowOutsideWorktree\<close> is set: the commit count is
  the size of the union of their commit sets, the line totals and the file count are the
  sums over them, and the last-commit time is the latest among them (the zero time when
  there is none). Entries that fail the test contribute to none of these.
\<close>

theorem sumOverPaths_filter_law:
  assumes "distinct (map fst authors)" and "map_of authors key = Some author"
  shows "map_of (sumOverPaths authors wtreefiles allowOutsideWorktree) key =
     Some \<lparr>AuthorName = name author, AuthorEmail = email author,
       Commits = int (card (\<Union>(p, t) \<in> set (filter (\<lambda>(p, t). p \<in> wtreefiles \<or> allowOutsideWorktree)
                     (paths author)). commitset t)),
       LinesAdded = (\<Sum>(p, t) \<leftarrow> filter (\<lambda>(p, t). p \<in> wtreefiles \<or> allowOutsideWorktree)
                     (paths author). added t),
       LinesRemoved = (\<Sum>(p, t) \<leftarrow> filter (\<lambda>(p, t). p \<in> wtreefiles \<or> allowOutsideWorktree)
                     (paths author). removed t),
       FileCount = (\<Sum>(p, t) \<leftarrow> filter (\<lambda>(p, t). p \<in> wtreefiles \<or> allowOutsideWorktree)
                     (paths author). numTallied t),
       LastCommitTime = Max (insert zeroTime ((\<lambda>(p, t). lastCommitTime t) `
                     set (filter (\<lambda>(p, t). p \<in> wtreefiles \<or> allowOutsideWorktree)
                       (paths author))))\<rparr>"
  using assms
  by (simp add: map_of_sumOverPaths authorTallyOf_def sumPaths_eq intermediateTally_Commits_def
      qualifying_def)

theorem sumOverPaths_filter_law_witness:
  "distinct (map fst
      [(''a'', \<lparr>name = ''A'', email = ''a@x'', paths =
          [(''x.go'', \<lparr>commitset = {''c1''}, added = 10, removed = 0, lastCommitTime = 100,
                      numTallied = 1\<rparr>),
           (''z.go'', \<lparr>commitset = {''c1'', ''c2''}, added = 3, removed = 1, lastCommitTime = 200,
                      numTallied = 1\<rparr>)]\<rparr>)])
   \<and> map_of
      [(''a'', \<lparr>name = ''A'', email = ''a@x'', paths =
          [(''x.go'', \<lparr>commitset = {''c1''}, added = 10, removed = 0, lastCommitTime = 100,
                      numTallied = 1\<rparr>),
           (''z.go'', \<lparr>commitset = {''c1'', ''c2''}, added = 3, removed = 1, lastCommitTime = 200,
                      numTallied = 1\<rparr>)]\<rparr>)] ''a''
      = Some \<lparr>name = ''A'', email = ''a@x'', paths =
          [(''x.go'', \<lparr>commitset = {''c1''}, added = 10, removed = 0, lastCommitTime = 100,
                      numTallied = 1\<rparr>),
           (''z.go'', \<lparr>commitset = {''c1'', ''c2''}, added = 3, removed = 1, lastCommitTime = 200,
                      numTallied = 1\<rparr>)]\<rparr>
   \<and> map_of (sumOverPaths
      [(''a'', \<lparr>name = ''A'', email = ''a@x'', paths =
          [(''x.go'', \<lparr>commitset = {''c1''}, added = 10, removed = 0, lastCommitTime = 100,
                      numTallied = 1\<rparr>),
           (''z.go'', \<lparr>commitset = {''c1'', ''c2''}, added = 3, removed = 1, lastCommitTime = 200,
                      numTallied = 1\<rparr>)]\<rparr>)] {''x.go''} False) ''a''
      = Some \<lparr>AuthorName = ''A'', AuthorEmail = ''a@x'', Commits = 1, LinesAdded = 10,
          LinesRemoved = 0, FileCount = 1, LastCommitTime = 100\<rparr>"
  using sumOverPaths_filter_law[of
      "[(''a'', \<lparr>name = ''A'', email = ''a@x'', paths =
          [(''x.go'', \<lparr>commitset = {''c1''}, added = 10, removed = 0, lastCommitTime = 100,
                      numTallied = 1\<rparr>),
           (''z.go'', \<lparr>commitset = {''c1'', ''c2''}, added = 3, removed = 1, lastCommitTime = 200,
                      numTallied = 1\<rparr>)]\<rparr>)]"
      "''a''"
      "\<lparr>name = ''A'', email = ''a@x'', paths =
          [(''x.go'', \<lparr>commitset = {''c1''}, added = 10, removed = 0, lastCommitTime = 100,
                      numTallied = 1\<rparr>),
           (''z.go'', \<lparr>commitset = {''c1'', ''c2''}, added = 3, removed = 1, lastCommitTime = 200,
                      numTallied = 1\<rparr>)]\<rparr>"
      "{''x.go''}" False]
  by (simp add: zeroTime_def)

text \<open>
  Claim C3: the commit count of an author is the number of elements of the union of the
  commit sets of the qualifying paths. When a commit identifier \<open>c\<close>, not yet counted for
  the author, is added to the commit sets of the paths in \<open>touched\<close>, of which at least
  one qualifies, the author's \<^verbatim>\<open>Commits\<close> grows by exactly 1, whatever the number of
  touched paths.
\<close>

theorem dedup_law:
  assumes "distinct (map fst authors)" and "distinct (map fst authors')"
    and "map_of authors key = Some author" and "map_of authors' key = Some author'"
    and "distinct (map fst (paths author))" and "distinct (map fst (paths author'))"
    and "\<forall>p. finite (commitsetAt author p)"
    and "\<forall>p. commitsetAt author' p = commitsetAt author p \<union> (if p \<in> touched then {c} else {})"
    and "\<exists>p \<in> touched. p \<in> wtreefiles \<or> allowOutsideWorktree"
    and "\<forall>p. p \<in> wtreefiles \<or> allowOutsideWorktree \<longrightarrow> c \<notin> commitsetAt author p"
  shows "Commits (lookupTally (sumOverPaths authors' wtreefiles allowOutsideWorktree) key)
       = Commits (lookupTally (sumOverPaths authors wtreefiles allowOutsideWorktree) key) + 1
     \<and> Commits (lookupTally (sumOverPaths authors' wtreefiles allowOutsideWorktree) key)
       = int (card (\<Union>p \<in> {p. p \<in> wtreefiles \<or> allowOutsideWorktree}. commitsetAt author' p))"
proof -
  let ?Q = "{p. p \<in> wtreefiles \<or> allowOutsideWorktree}"
  let ?U = "\<Union>p \<in> ?Q. commitsetAt author p"
  let ?U' = "\<Union>p \<in> ?Q. commitsetAt author' p"
  have fin: "finite ?U" using assms(7) assms(5) by (rule finite_Union_qualifying)
  have new: "c \<notin> ?U" using assms(10) by auto
  have "?U' = insert c ?U"
    using assms(8) assms(9) by (auto split: if_splits)
  then have "card ?U' = card ?U + 1" using fin new by simp
  moreover have "Commits (lookupTally (sumOverPaths authors' wtreefiles allowOutsideWorktree) key)
      = int (card ?U')"
    using assms(2) assms(4) assms(6) by (rule Commits_sumOverPaths)
  moreover have "Commits (lookupTally (sumOverPaths authors wtreefiles allowOutsideWorktree) key)
      = int (card ?U)"
    using assms(1) assms(3) assms(5) by (rule Commits_sumOverPaths)
  ultimately show ?thesis by simp
qed

theorem dedup_law_witness:
  "Commits (lookupTally (sumOverPaths
      [(''a'', \<lparr>name = ''A'', email = ''a@x'', paths =
          [(''x.go'', \<lparr>commitset = {''c1'', ''c2''}, added = 12, removed = 0,
                      lastCommitTime = 200, numTallied = 2\<rparr>),
           (''y.go'', \<lparr>commitset = {''c2''}, added = 5, removed = 0,
                      lastCommitTime = 200, numTallied = 1\<rparr>)]\<rparr>)] {''x.go'', ''y.go''} False)
      ''a'')
   = Commits (lookupTally (sumOverPaths
      [(''a'', \<lparr>name = ''A'', email = ''a@x'', paths =
          [(''x.go'', \<lparr>commitset = {''c1''}, added = 10, removed = 0,
                      lastCommitTime = 100, numTallied = 1\<rparr>)]\<rparr>)] {''x.go'', ''y.go''} False)
      ''a'') + 1
   \<and> Commits (lookupTally (sumOverPaths
      [(''a'', \<lparr>name = ''A'', email = ''a@x'', paths =
          [(''x.go'', \<lparr>commitset = {''c1'', ''c2''}, added = 12, removed = 0,
                      lastCommitTime = 200, numTallied = 2\<rparr>),
           (''y.go'', \<lparr>commitset = {''c2''}, added = 5, removed = 0,
                      lastCommitTime = 200, numTallied = 1\<rparr>)]\<rparr>)] {''x.go'', ''y.go''} False)
      ''a'') = 2"
proof -
  let ?a = "\<lparr>name = ''A'', email = ''a@x'', paths =
          [(''x.go'', \<lparr>commitset = {''c1''}, added = 10, removed = 0,
                      lastCommitTime = 100, numTallied = 1\<rparr>)]\<rparr>"
  let ?a' = "\<lparr>name = ''A'', email = ''a@x'', paths =
          [(''x.go'', \<lparr>commitset = {''c1'', ''c2''}, added = 12, removed = 0,
                      lastCommitTime = 200, numTallied = 2\<rparr>),
           (''y.go'', \<lparr>commitset = {''c2''}, added = 5, removed = 0,
                      lastCommitTime = 200, numTallied = 1\<rparr>)]\<rparr>"
  have h1: "distinct (map fst [(''a'', ?a)])" "distinct (map fst [(''a'', ?a')])"
    "map_of [(''a'', ?a)] ''a'' = Some ?a" "map_of [(''a'', ?a')] ''a'' = Some ?a'"
    "distinct (map fst (paths ?a))" "distinct (map fst (paths ?a'))"
    by simp_all
  have h2: "\<forall>p. finite (commitsetAt ?a p)"
    by (simp add: commitsetAt_def)
  have h3: "\<forall>p. commitsetAt ?a' p
      = commitsetAt ?a p \<union> (if p \<in> {''x.go'', ''y.go''} then {''c2''} else {})"
    by (auto simp: commitsetAt_def)
  have h4: "\<exists>p \<in> {''x.go'', ''y.go''}. p \<in> {''x.go'', ''y.go''} \<or> False"
    by blast
  have h5: "\<forall>p. p \<in> {''x.go'', ''y.go''} \<or> False \<longrightarrow> ''c2'' \<notin> commitsetAt ?a p"
    by (simp add: commitsetAt_def)
  have ev: "Commits (lookupTally (sumOverPaths [(''a'', ?a')] {''x.go'', ''y.go''} False) ''a'') = 2"
    by (simp add: sumOverPaths_def sumPaths_def lookupTally_def Add_def newTally_def
        intermediateTally_Commits_def Let_def card_insert_if)
  from dedup_law[OF h1 h2 h3 h4 h5] ev show ?thesis by simp
qed

section \<open>Properties of the simple pipeline\<close>

lemma merge_fold:
  "TallyCommitsApplyMerge_merge a b
     = fold (\<lambda>(k, at) union. AList.update k (mergeEntry at (lookupTally union k)) union) a b"
proof -
  have "(\<lambda>(k, at) union.
             let bt = lookupTally union k;
                 at' = at\<lparr>Commits := Commits at + Commits bt,
                          LastCommitTime :=
                            timeutils_Max (LastCommitTime at) (LastCommitTime bt)\<rparr>
             in AList.update k at' union)
      = (\<lambda>(k, at) union. AList.update k (mergeEntry at (lookupTally union k)) union)"
    by (intro ext) (simp add: Let_def mergeEntry_def split: prod.splits)
  then show ?thesis unfolding TallyCommitsApplyMerge_merge_def by simp
qed

lemma map_of_merge_fold:
  "distinct (map fst a) \<Longrightarrow>
   map_of (fold (\<lambda>(k, at) union. AList.update k (mergeEntry at (lookupTally union k)) union) a b) k
   = (case map_of a k of
        None \<Rightarrow> map_of b k
      | Some at \<Rightarrow> Some (mergeEntry at (lookupTally b k)))"
proof (induction a arbitrary: b)
  case Nil show ?case by simp
next
  case (Cons x a)
  let ?f = "\<lambda>(k, at) union. AList.update k (mergeEntry at (lookupTally union k)) union"
  obtain k1 at1 where x: "x = (k1, at1)" by (cases x)
  let ?b' = "AList.update k1 (mergeEntry at1 (lookupTally b k1)) b"
  from Cons.prems x have d: "distinct (map fst a)" and nk: "map_of a k1 = None"
    by (auto simp: map_of_eq_None_iff)
  have step: "fold ?f (x # a) b = fold ?f a ?b'" by (simp add: x)
  have IH: "map_of (fold ?f (x # a) b) k
      = (case map_of a k of None \<Rightarrow> map_of ?b' k
         | Some at \<Rightarrow> Some (mergeEntry at (lookupTally ?b' k)))"
    unfolding step by (rule Cons.IH[OF d])
  show ?case
  proof (cases "k = k1")
    case True
    with nk IH show ?thesis by (simp add: x update_conv')
  next
    case False
    then have e1: "map_of ?b' k = map_of b k" by (simp add: update_conv')
    then have e2: "lookupTally ?b' k = lookupTally b k" by (simp add: lookupTally_def)
    from False have e3: "map_of (x # a) k = map_of a k" by (simp add: x)
    show ?thesis unfolding IH e1 e2 e3 ..
  qed
qed

lemma map_of_merge:
  "distinct (map fst a) \<Longrightarrow>
   map_of (TallyCommitsApplyMerge_merge a b) k
   = (case map_of a k of
        None \<Rightarrow> map_of b k
      | Some at \<Rightarrow> Some (mergeEntry at (lookupTally b k)))"
  by (simp add: merge_fold map_of_merge_fold)

lemma distinct_merge:
  "distinct (map fst b) \<Longrightarrow> distinct (map fst (TallyCommitsApplyMerge_merge a b))"
  unfolding merge_fold
  by (induction a arbitrary: b) (auto simp: distinct_update)

lemma lookupTally_merge:
  "distinct (map fst a) \<Longrightarrow>
   lookupTally (TallyCommitsApplyMerge_merge a b) k
   = (case map_of a k of
        None \<Rightarrow> lookupTally b k
      | Some at \<Rightarrow> mergeEntry at (lookupTally b k))"
  by (simp add: lookupTally_def map_of_merge split: option.splits)

lemma notBeforeZero_lookup:
  "notBeforeZero m \<Longrightarrow> zeroTime \<le> LastCommitTime (lookupTally m k)"
  by (auto simp: notBeforeZero_def lookupTally_def zeroTally_def split: option.splits
      dest!: map_of_SomeD)

lemma notBeforeZero_map_of:
  "notBeforeZero m \<Longrightarrow> map_of m k = Some t \<Longrightarrow> zeroTime \<le> LastCommitTime t"
  by (auto simp: notBeforeZero_def dest!: map_of_SomeD)

lemma lookupTally_None: "map_of m k = None \<Longrightarrow> lookupTally m k = zeroTally"
  by (simp add: lookupTally_def)

lemma lookupTally_Some: "map_of m k = Some t \<Longrightarrow> lookupTally m k = t"
  by (simp add: lookupTally_def)

lemma mergeEntry_zero:
  "zeroTime \<le> LastCommitTime t \<Longrightarrow> mergeEntry t zeroTally = t"
  by (simp add: mergeEntry_def zeroTally_def timeutils_Max_max max_absorb1)

lemma mergeEntry_assoc:
  "mergeEntry (mergeEntry x y) z = mergeEntry x (mergeEntry y z)"
  by (simp add: mergeEntry_def timeutils_Max_max max.assoc)

lemma merge_assoc:
  assumes "distinct (map fst a)" "distinct (map fst b)" "notBeforeZero a"
  shows "map_of (TallyCommitsApplyMerge_merge (TallyCommitsApplyMerge_merge a b) c)
       = map_of (TallyCommitsApplyMerge_merge a (TallyCommitsApplyMerge_merge b c))"
proof
  fix k
  have dab: "distinct (map fst (TallyCommitsApplyMerge_merge a b))"
    using assms(2) by (rule distinct_merge)
  show "map_of (TallyCommitsApplyMerge_merge (TallyCommitsApplyMerge_merge a b) c) k
       = map_of (TallyCommitsApplyMerge_merge a (TallyCommitsApplyMerge_merge b c)) k"
  proof (cases "map_of a k")
    case None
    then show ?thesis
      by (simp add: map_of_merge[OF dab] map_of_merge[OF assms(1)] map_of_merge[OF assms(2)])
  next
    case (Some at)
    from notBeforeZero_map_of[OF assms(3) Some] have z: "zeroTime \<le> LastCommitTime at" .
    show ?thesis
    proof (cases "map_of b k")
      case None
      have l1: "lookupTally b k = zeroTally" using None by (rule lookupTally_None)
      have l2: "lookupTally (TallyCommitsApplyMerge_merge b c) k = lookupTally c k"
        using None by (simp add: lookupTally_merge[OF assms(2)])
      show ?thesis
        using Some
        by (simp add: map_of_merge[OF dab] map_of_merge[OF assms(1)] l1 l2 mergeEntry_zero[OF z])
    next
      case (Some bt)
      have l1: "lookupTally b k = bt" using Some by (rule lookupTally_Some)
      have l2: "lookupTally (TallyCommitsApplyMerge_merge b c) k = mergeEntry bt (lookupTally c k)"
        using Some by (simp add: lookupTally_merge[OF assms(2)])
      show ?thesis
        using \<open>map_of a k = Some at\<close>
        by (simp add: map_of_merge[OF dab] map_of_merge[OF assms(1)] l1 l2 mergeEntry_assoc)
    qed
  qed
qed

lemma merge_commute_core:
  assumes "distinct (map fst a)" "distinct (map fst b)" "notBeforeZero a" "notBeforeZero b"
  shows "map_option (\<lambda>t. (Commits t, LastCommitTime t)) (map_of (TallyCommitsApplyMerge_merge a b) k)
       = map_option (\<lambda>t. (Commits t, LastCommitTime t)) (map_of (TallyCommitsApplyMerge_merge b a) k)"
proof (cases "map_of a k")
  case None
  show ?thesis
  proof (cases "map_of b k")
    case None
    with \<open>map_of a k = None\<close> show ?thesis
      by (simp add: map_of_merge[OF assms(1)] map_of_merge[OF assms(2)])
  next
    case (Some bt)
    from notBeforeZero_map_of[OF assms(4) Some] have "zeroTime \<le> LastCommitTime bt" .
    with Some \<open>map_of a k = None\<close> show ?thesis
      by (simp add: map_of_merge[OF assms(1)] map_of_merge[OF assms(2)] lookupTally_def
          mergeEntry_def zeroTally_def timeutils_Max_max max_absorb1 max_absorb2)
  qed
next
  case (Some at)
  from notBeforeZero_map_of[OF assms(3) Some] have z: "zeroTime \<le> LastCommitTime at" .
  show ?thesis
  proof (cases "map_of b k")
    case None
    with Some z show ?thesis
      by (simp add: map_of_merge[OF assms(1)] map_of_merge[OF assms(2)] lookupTally_def
          mergeEntry_def zeroTally_def timeutils_Max_max max_absorb1 max_absorb2)
  next
    case (Some bt)
    with \<open>map_of a k = Some at\<close> show ?thesis
      by (simp add: map_of_merge[OF assms(1)] map_of_merge[OF assms(2)] lookupTally_def
          mergeEntry_def timeutils_Max_max max.commute)
  qed
qed

lemma merge_commute_agree:
  assumes "distinct (map fst a)" "distinct (map fst b)" "notBeforeZero a" "notBeforeZero b"
    and agree: "\<And>k at bt. map_of a k = Some at \<Longrightarrow> map_of b k = Some bt \<Longrightarrow>
       AuthorName at = AuthorName bt \<and> AuthorEmail at = AuthorEmail bt
       \<and> LinesAdded at = LinesAdded bt \<and> LinesRemoved at = LinesRemoved bt
       \<and> FileCount at = FileCount bt"
  shows "map_of (TallyCommitsApplyMerge_merge a b) = map_of (TallyCommitsApplyMerge_merge b a)"
proof
  fix k
  show "map_of (TallyCommitsApplyMerge_merge a b) k = map_of (TallyCommitsApplyMerge_merge b a) k"
  proof (cases "map_of a k")
    case None
    show ?thesis
    proof (cases "map_of b k")
      case None
      with \<open>map_of a k = None\<close> show ?thesis
        by (simp add: map_of_merge[OF assms(1)] map_of_merge[OF assms(2)])
    next
      case (Some bt)
      from notBeforeZero_map_of[OF assms(4) Some] have "zeroTime \<le> LastCommitTime bt" .
      with Some \<open>map_of a k = None\<close> show ?thesis
        by (simp add: map_of_merge[OF assms(1)] map_of_merge[OF assms(2)] lookupTally_def
            mergeEntry_def zeroTally_def timeutils_Max_max max_absorb1 max_absorb2)
    qed
  next
    case (Some at)
    from notBeforeZero_map_of[OF assms(3) Some] have z: "zeroTime \<le> LastCommitTime at" .
    show ?thesis
    proof (cases "map_of b k")
      case None
      with Some z show ?thesis
        by (simp add: map_of_merge[OF assms(1)] map_of_merge[OF assms(2)] lookupTally_def
            mergeEntry_def zeroTally_def timeutils_Max_max max_absorb1 max_absorb2)
    next
      case (Some bt)
      from agree[OF \<open>map_of a k = Some at\<close> Some] Some \<open>map_of a k = Some at\<close> show ?thesis
        by (simp add: map_of_merge[OF assms(1)] map_of_merge[OF assms(2)] lookupTally_def
            mergeEntry_def timeutils_Max_max max.commute)
    qed
  qed
qed

lemma summarisesD:
  assumes "summarises opts cs m"
  shows "distinct (map fst m)"
    and "map_of m k \<noteq> None \<longleftrightarrow> k \<in> Key opts ` set cs"
    and "Commits (lookupTally m k) = commitCount opts k cs"
    and "LinesAdded (lookupTally m k) = 0"
    and "LinesRemoved (lookupTally m k) = 0"
    and "FileCount (lookupTally m k) = 0"
    and "LastCommitTime (lookupTally m k) = latest opts k cs"
    and "k \<in> Key opts ` set cs \<Longrightarrow> \<exists>c \<in> set cs. Key opts c = k
                 \<and> AuthorName (lookupTally m k) = Commit_AuthorName c
                 \<and> AuthorEmail (lookupTally m k) = Commit_AuthorEmail c"
proof -
  from assms show "distinct (map fst m)" unfolding summarises_def by (rule conjunct1)
  from assms have "\<forall>k. (map_of m k \<noteq> None \<longleftrightarrow> k \<in> Key opts ` set cs)
         \<and> Commits (lookupTally m k) = commitCount opts k cs
         \<and> LinesAdded (lookupTally m k) = 0
         \<and> LinesRemoved (lookupTally m k) = 0
         \<and> FileCount (lookupTally m k) = 0
         \<and> LastCommitTime (lookupTally m k) = latest opts k cs
         \<and> (k \<in> Key opts ` set cs \<longrightarrow>
              (\<exists>c \<in> set cs. Key opts c = k
                 \<and> AuthorName (lookupTally m k) = Commit_AuthorName c
                 \<and> AuthorEmail (lookupTally m k) = Commit_AuthorEmail c))"
    unfolding summarises_def by (rule conjunct2)
  then have k: "(map_of m k \<noteq> None \<longleftrightarrow> k \<in> Key opts ` set cs)
         \<and> Commits (lookupTally m k) = commitCount opts k cs
         \<and> LinesAdded (lookupTally m k) = 0
         \<and> LinesRemoved (lookupTally m k) = 0
         \<and> FileCount (lookupTally m k) = 0
         \<and> LastCommitTime (lookupTally m k) = latest opts k cs
         \<and> (k \<in> Key opts ` set cs \<longrightarrow>
              (\<exists>c \<in> set cs. Key opts c = k
                 \<and> AuthorName (lookupTally m k) = Commit_AuthorName c
                 \<and> AuthorEmail (lookupTally m k) = Commit_AuthorEmail c))"
    by (rule spec)
  from k show "map_of m k \<noteq> None \<longleftrightarrow> k \<in> Key opts ` set cs" by (elim conjE)
  from k show "Commits (lookupTally m k) = commitCount opts k cs" by (elim conjE)
  from k show "LinesAdded (lookupTally m k) = 0" by (elim conjE)
  from k show "LinesRemoved (lookupTally m k) = 0" by (elim conjE)
  from k show "FileCount (lookupTally m k) = 0" by (elim conjE)
  from k show "LastCommitTime (lookupTally m k) = latest opts k cs" by (elim conjE)
  from k show "k \<in> Key opts ` set cs \<Longrightarrow> \<exists>c \<in> set cs. Key opts c = k
                 \<and> AuthorName (lookupTally m k) = Commit_AuthorName c
                 \<and> AuthorEmail (lookupTally m k) = Commit_AuthorEmail c"
    by (elim conjE impE)
qed

lemma summarisesI:
  assumes "distinct (map fst m)"
    and "\<And>k. (map_of m k \<noteq> None \<longleftrightarrow> k \<in> Key opts ` set cs)
         \<and> Commits (lookupTally m k) = commitCount opts k cs
         \<and> LinesAdded (lookupTally m k) = 0
         \<and> LinesRemoved (lookupTally m k) = 0
         \<and> FileCount (lookupTally m k) = 0
         \<and> LastCommitTime (lookupTally m k) = latest opts k cs
         \<and> (k \<in> Key opts ` set cs \<longrightarrow>
              (\<exists>c \<in> set cs. Key opts c = k
                 \<and> AuthorName (lookupTally m k) = Commit_AuthorName c
                 \<and> AuthorEmail (lookupTally m k) = Commit_AuthorEmail c))"
  shows "summarises opts cs m"
  unfolding summarises_def using assms by simp

lemma commitCount_append:
  "commitCount opts k (xs @ ys) = commitCount opts k xs + commitCount opts k ys"
  by (simp add: commitCount_def)

lemma commitCount_absent: "k \<notin> Key opts ` set cs \<Longrightarrow> commitCount opts k cs = 0"
  by (auto simp: commitCount_def filter_empty_conv)

lemma latest_ge_zero: "zeroTime \<le> latest opts k cs"
  by (simp add: latest_def)

lemma latest_absent: "k \<notin> Key opts ` set cs \<Longrightarrow> latest opts k cs = zeroTime"
proof -
  assume "k \<notin> Key opts ` set cs"
  then have e: "{c \<in> set cs. Key opts c = k} = {}" by auto
  show ?thesis unfolding latest_def e by simp
qed

lemma latest_append:
  "latest opts k (xs @ ys) = max (latest opts k xs) (latest opts k ys)"
proof -
  let ?A = "insert zeroTime (Date ` {c \<in> set xs. Key opts c = k})"
  let ?B = "insert zeroTime (Date ` {c \<in> set ys. Key opts c = k})"
  have "insert zeroTime (Date ` {c \<in> set (xs @ ys). Key opts c = k}) = ?A \<union> ?B" by auto
  moreover have "Max (?A \<union> ?B) = max (Max ?A) (Max ?B)"
    by (rule Max_Un) simp_all
  ultimately show ?thesis by (simp add: latest_def)
qed

lemma commitCount_mset:
  "mset xs = mset ys \<Longrightarrow> commitCount opts k xs = commitCount opts k ys"
proof -
  assume "mset xs = mset ys"
  then have "mset (filter (\<lambda>c. Key opts c = k) xs) = mset (filter (\<lambda>c. Key opts c = k) ys)"
    by simp
  then have "length (filter (\<lambda>c. Key opts c = k) xs) = length (filter (\<lambda>c. Key opts c = k) ys)"
    by (rule mset_eq_length)
  then show ?thesis by (simp add: commitCount_def)
qed

lemma summarises_mset:
  assumes "mset xs = mset ys" "summarises opts xs m"
  shows "summarises opts ys m"
proof -
  from assms(1) have s: "set xs = set ys" by (rule mset_eq_setD)
  have l: "\<And>k. latest opts k xs = latest opts k ys" by (simp add: latest_def s)
  have c: "\<And>k. commitCount opts k xs = commitCount opts k ys"
    using assms(1) by (rule commitCount_mset)
  from assms(2) show ?thesis unfolding summarises_def s l c .
qed

lemma summarises_simple:
  "summarises opts cs (fold (simpleStep opts) cs [])"
proof (rule summarisesI)
  let ?m = "fold (simpleStep opts) cs []"
  show "distinct (map fst ?m)" by (simp add: distinct_fold_simpleStep)
  fix k
  have z: "lookupTally [] k = zeroTally" by (simp add: lookupTally_def)
  have dom: "map_of ?m k \<noteq> None \<longleftrightarrow> k \<in> Key opts ` set cs"
  proof (cases "k \<in> Key opts ` set cs")
    case True
    with map_of_fold_simpleStep_dom[OF True, of "[]"] show ?thesis by auto
  next
    case False
    with map_of_fold_simpleStep_other[OF False, of "[]"] show ?thesis by simp
  qed
  have c: "Commits (lookupTally ?m k) = commitCount opts k cs"
    by (simp add: Commits_fold_simpleStep z zeroTally_def)
  have f: "LinesAdded (lookupTally ?m k) = 0" "LinesRemoved (lookupTally ?m k) = 0"
      "FileCount (lookupTally ?m k) = 0"
    using frame_fold_simpleStep[of opts cs "[]" k] by (simp_all add: z zeroTally_def)
  have l: "LastCommitTime (lookupTally ?m k) = latest opts k cs"
    by (simp add: LastCommitTime_fold_simpleStep z zeroTally_def latest_def)
  have n: "k \<in> Key opts ` set cs \<longrightarrow>
              (\<exists>c \<in> set cs. Key opts c = k
                 \<and> AuthorName (lookupTally ?m k) = Commit_AuthorName c
                 \<and> AuthorEmail (lookupTally ?m k) = Commit_AuthorEmail c)"
    using name_fold_simpleStep[of k opts cs "[]"] by blast
  from dom c f l n show "(map_of ?m k \<noteq> None \<longleftrightarrow> k \<in> Key opts ` set cs)
         \<and> Commits (lookupTally ?m k) = commitCount opts k cs
         \<and> LinesAdded (lookupTally ?m k) = 0
         \<and> LinesRemoved (lookupTally ?m k) = 0
         \<and> FileCount (lookupTally ?m k) = 0
         \<and> LastCommitTime (lookupTally ?m k) = latest opts k cs
         \<and> (k \<in> Key opts ` set cs \<longrightarrow>
              (\<exists>c \<in> set cs. Key opts c = k
                 \<and> AuthorName (lookupTally ?m k) = Commit_AuthorName c
                 \<and> AuthorEmail (lookupTally ?m k) = Commit_AuthorEmail c))"
    by simp
qed

lemma summarises_merge:
  assumes a: "summarises opts xs a" and b: "summarises opts ys b"
  shows "summarises opts (xs @ ys) (TallyCommitsApplyMerge_merge a b)"
proof (rule summarisesI)
  let ?m = "TallyCommitsApplyMerge_merge a b"
  from a have da: "distinct (map fst a)" by (rule summarisesD)
  from b have db: "distinct (map fst b)" by (rule summarisesD)
  show "distinct (map fst ?m)" using db by (rule distinct_merge)
  fix k
  note ak = summarisesD(2-8)[OF a, of k]
  note bk = summarisesD(2-8)[OF b, of k]
  show "(map_of ?m k \<noteq> None \<longleftrightarrow> k \<in> Key opts ` set (xs @ ys))
         \<and> Commits (lookupTally ?m k) = commitCount opts k (xs @ ys)
         \<and> LinesAdded (lookupTally ?m k) = 0
         \<and> LinesRemoved (lookupTally ?m k) = 0
         \<and> FileCount (lookupTally ?m k) = 0
         \<and> LastCommitTime (lookupTally ?m k) = latest opts k (xs @ ys)
         \<and> (k \<in> Key opts ` set (xs @ ys) \<longrightarrow>
              (\<exists>c \<in> set (xs @ ys). Key opts c = k
                 \<and> AuthorName (lookupTally ?m k) = Commit_AuthorName c
                 \<and> AuthorEmail (lookupTally ?m k) = Commit_AuthorEmail c))"
  proof (cases "map_of a k")
    case None
    with ak(1) have nx: "k \<notin> Key opts ` set xs" by simp
    have lk: "lookupTally ?m k = lookupTally b k"
      using None by (simp add: lookupTally_merge[OF da])
    have mk: "map_of ?m k = map_of b k" using None by (simp add: map_of_merge[OF da])
    have keys: "k \<in> Key opts ` set (xs @ ys) \<longleftrightarrow> k \<in> Key opts ` set ys"
      using nx by auto
    have cc: "commitCount opts k (xs @ ys) = commitCount opts k ys"
      by (simp add: commitCount_append commitCount_absent[OF nx])
    have ll: "latest opts k (xs @ ys) = latest opts k ys"
      using latest_ge_zero[of opts k ys]
      by (simp add: latest_append latest_absent[OF nx] max_absorb2)
    have nm: "k \<in> Key opts ` set ys \<longrightarrow>
              (\<exists>c \<in> set (xs @ ys). Key opts c = k
                 \<and> AuthorName (lookupTally b k) = Commit_AuthorName c
                 \<and> AuthorEmail (lookupTally b k) = Commit_AuthorEmail c)"
    proof
      assume "k \<in> Key opts ` set ys"
      from bk(7)[OF this] obtain c where "c \<in> set ys" "Key opts c = k"
        "AuthorName (lookupTally b k) = Commit_AuthorName c"
        "AuthorEmail (lookupTally b k) = Commit_AuthorEmail c" by blast
      then show "\<exists>c \<in> set (xs @ ys). Key opts c = k
                 \<and> AuthorName (lookupTally b k) = Commit_AuthorName c
                 \<and> AuthorEmail (lookupTally b k) = Commit_AuthorEmail c"
        by auto
    qed
    show ?thesis unfolding lk mk keys cc ll using bk(1-6) nm by simp
  next
    case (Some at)
    with ak(1) have ix: "k \<in> Key opts ` set xs" by simp
    have la: "lookupTally a k = at" using Some by (rule lookupTally_Some)
    have lk: "lookupTally ?m k = mergeEntry at (lookupTally b k)"
      using Some by (simp add: lookupTally_merge[OF da])
    have mk: "map_of ?m k \<noteq> None" using Some by (simp add: map_of_merge[OF da])
    have keys: "k \<in> Key opts ` set (xs @ ys)" using ix by auto
    from ak(7)[OF ix] obtain c where c: "c \<in> set xs" "Key opts c = k"
      "AuthorName at = Commit_AuthorName c" "AuthorEmail at = Commit_AuthorEmail c"
      unfolding la by blast
    have nm: "\<exists>c \<in> set (xs @ ys). Key opts c = k
               \<and> AuthorName (mergeEntry at (lookupTally b k)) = Commit_AuthorName c
               \<and> AuthorEmail (mergeEntry at (lookupTally b k)) = Commit_AuthorEmail c"
    proof (rule bexI[of _ c])
      show "Key opts c = k
               \<and> AuthorName (mergeEntry at (lookupTally b k)) = Commit_AuthorName c
               \<and> AuthorEmail (mergeEntry at (lookupTally b k)) = Commit_AuthorEmail c"
        using c by (simp add: mergeEntry_def)
      show "c \<in> set (xs @ ys)" using c(1) by simp
    qed
    have vals: "Commits (mergeEntry at (lookupTally b k)) = commitCount opts k (xs @ ys)"
      "LinesAdded (mergeEntry at (lookupTally b k)) = 0"
      "LinesRemoved (mergeEntry at (lookupTally b k)) = 0"
      "FileCount (mergeEntry at (lookupTally b k)) = 0"
      "LastCommitTime (mergeEntry at (lookupTally b k)) = latest opts k (xs @ ys)"
      using ak(2-6) bk(2-6) unfolding la
      by (simp_all add: mergeEntry_def timeutils_Max_max commitCount_append latest_append)
    show ?thesis unfolding lk using mk keys nm vals by simp
  qed
qed

lemma apply_simple:
  "\<not> IsDiffMode opts \<Longrightarrow>
   TallyCommitsApplyMerge_apply w True opts (map Inr cs) = Inr (fold (simpleStep opts) cs [])"
  by (simp add: TallyCommitsApplyMerge_apply_def tallyCommits_def tallyCommits_simple_fold)

lemma reduceTree_simple:
  assumes "\<not> IsDiffMode opts"
  shows "\<exists>M. reduceTree (TallyCommitsApplyMerge_apply w True opts) TallyCommitsApplyMerge_merge
            (map_rtree (map Inr) t) = Inr M
      \<and> summarises opts (concat (leaves t)) M"
proof (induction t)
  case (Leaf s)
  show ?case using summarises_simple[of opts s] by (simp add: apply_simple[OF assms])
next
  case (Node l r)
  from Node.IH obtain A B where
    A: "reduceTree (TallyCommitsApplyMerge_apply w True opts) TallyCommitsApplyMerge_merge
            (map_rtree (map Inr) l) = Inr A" "summarises opts (concat (leaves l)) A"
    and B: "reduceTree (TallyCommitsApplyMerge_apply w True opts) TallyCommitsApplyMerge_merge
            (map_rtree (map Inr) r) = Inr B" "summarises opts (concat (leaves r)) B"
    by blast
  from summarises_merge[OF A(2) B(2)] A(1) B(1) show ?case by simp
qed

lemma summarises_core:
  assumes "summarises opts cs M" "summarises opts cs S"
  shows "map_option coreOf (map_of M k) = map_option coreOf (map_of S k)"
proof -
  note mk = summarisesD(2-8)[OF assms(1), of k]
  note sk = summarisesD(2-8)[OF assms(2), of k]
  show ?thesis
  proof (cases "k \<in> Key opts ` set cs")
    case False
    with mk(1) sk(1) have "map_of M k = None" "map_of S k = None" by simp_all
    then show ?thesis by simp
  next
    case True
    with mk(1) sk(1) obtain tm ts where t: "map_of M k = Some tm" "map_of S k = Some ts"
      by auto
    then have l: "lookupTally M k = tm" "lookupTally S k = ts" by (simp_all add: lookupTally_def)
    have "coreOf (lookupTally M k) = coreOf (lookupTally S k)"
      unfolding coreOf_def using mk(2-6) sk(2-6) by simp
    then show ?thesis unfolding l t by simp
  qed
qed

lemma summarises_consistent:
  assumes "summarises opts cs M" "summarises opts cs S" "keyConsistent opts cs"
  shows "map_of M = map_of S"
proof
  fix k
  note mk = summarisesD(2-8)[OF assms(1), of k]
  note sk = summarisesD(2-8)[OF assms(2), of k]
  show "map_of M k = map_of S k"
  proof (cases "k \<in> Key opts ` set cs")
    case False
    with mk(1) sk(1) have "map_of M k = None" "map_of S k = None" by simp_all
    then show ?thesis by simp
  next
    case True
    with mk(1) sk(1) obtain tm ts where t: "map_of M k = Some tm" "map_of S k = Some ts"
      by auto
    then have l: "lookupTally M k = tm" "lookupTally S k = ts" by (simp_all add: lookupTally_def)
    from mk(7)[OF True] obtain c where c: "c \<in> set cs" "Key opts c = k"
      "AuthorName tm = Commit_AuthorName c" "AuthorEmail tm = Commit_AuthorEmail c"
      unfolding l by blast
    from sk(7)[OF True] obtain c' where c': "c' \<in> set cs" "Key opts c' = k"
      "AuthorName ts = Commit_AuthorName c'" "AuthorEmail ts = Commit_AuthorEmail c'"
      unfolding l by blast
    from assms(3) c(1) c'(1)
    have "Key opts c = Key opts c' \<longrightarrow>
        Commit_AuthorName c = Commit_AuthorName c' \<and> Commit_AuthorEmail c = Commit_AuthorEmail c'"
      unfolding keyConsistent_def by blast
    with c(2) c'(2)
    have "Commit_AuthorName c = Commit_AuthorName c' \<and> Commit_AuthorEmail c = Commit_AuthorEmail c'"
      by simp
    with c c' have n: "AuthorName tm = AuthorName ts" "AuthorEmail tm = AuthorEmail ts" by simp_all
    have "coreOf tm = coreOf ts"
      unfolding coreOf_def using mk(2-6) sk(2-6) unfolding l by simp
    with n have "tm = ts" by (simp add: coreOf_def)
    then show ?thesis unfolding t by simp
  qed
qed

lemma same_map_same_values:
  assumes "distinct (map fst M)" "distinct (map fst S)" "map_of M = map_of S"
  shows "mset (map snd M) = mset (map snd S)"
proof -
  from assms have "set M = set S" by (simp add: map_of_inject_set)
  moreover from assms(1,2) have "distinct M" "distinct S" by (simp_all add: distinct_map)
  ultimately have "mset M = mset S" by (simp add: set_eq_iff_mset_eq_distinct)
  then show ?thesis by (metis mset_map)
qed

end
